theory Spec2Isabelle
  imports Main "HOL-Library.Sublist" "HOL-Library.Product_Lexorder"
begin

section \<open>Strings and the suffix grammar of actions\<close>

text \<open>
  \<^verbatim>\<open>getInitialAction(action) { return action.replace(/-success$|-failure$|-ack$/, ""); }\<close>
  The pattern is not global and \<^verbatim>\<open>$\<close> (no multiline flag) only matches at the end of the
  input, so the engine scans the start positions from left to right and the first position
  whose remaining text is exactly one of the three alternatives is the match; the match is
  replaced by the empty string.  When no position matches the string is returned unchanged.
\<close>

fun getInitialAction :: "string \<Rightarrow> string" where
  "getInitialAction [] = []"
| "getInitialAction (c # cs) =
     (if c # cs = ''-success'' \<or> c # cs = ''-failure'' \<or> c # cs = ''-ack'' then []
      else c # getInitialAction cs)"

section \<open>Errors and messages\<close>

text \<open>
  The error classes of \<^verbatim>\<open>errors/\<close>, by their names and by the message strings that the call
  sites pass to their constructors.  Each class is one constructor, carrying the message
  where the code passes one; \<open>OtherError\<close> stands for an exception that is not one of them.
\<close>

datatype web_eid_error =
    ActionPendingError
  | ActionTimeoutError
  | ContextInsecureError
  | ExtensionUnavailableError
  | AuthAppNotInstalledError
  | ProtocolInsecureError string
  | MissingParameterError string
  | ServerTimeoutError
  | ServerRejectedError "string option"
  | UserCancelledError
  | UserPinError
  | UnknownError string
  | OtherError string

text \<open>
  \<^verbatim>\<open>Message\<close> (\<^verbatim>\<open>models/Message\<close>), with the fields that the service and \<^verbatim>\<open>IntentUrl\<close> read.  An
  optional field is an \<open>option\<close>: \<open>None\<close> is \<^verbatim>\<open>undefined\<close>.  Header objects are the list of
  their properties in enumeration order.  The two numeric fields are timeouts in whole
  milliseconds and are modelled as integers; a JavaScript number that is not an integer is
  outside the model.
\<close>

record Message =
  action :: string
  error :: "web_eid_error option"
  useAuthApp :: "bool option"
  getAuthSuccessUrl :: "string option"
  headers :: "(string \<times> string) list option"
  getAuthChallengeUrl :: "string option"
  postAuthTokenUrl :: "string option"
  postPrepareSigningUrl :: "string option"
  postFinalizeSigningUrl :: "string option"
  applicationName :: "string option"
  actionDescription :: "string option"
  userInteractionTimeout :: "int option"
  serverRequestTimeout :: "int option"
  lang :: "string option"

text \<open>The object literal \<^verbatim>\<open>{ action: a }\<close>: every other field is \<^verbatim>\<open>undefined\<close>.\<close>

definition action_only :: "string \<Rightarrow> Message" where
  "action_only a =
     \<lparr> action = a, error = None, useAuthApp = None, getAuthSuccessUrl = None, headers = None,
       getAuthChallengeUrl = None, postAuthTokenUrl = None, postPrepareSigningUrl = None,
       postFinalizeSigningUrl = None, applicationName = None, actionDescription = None,
       userInteractionTimeout = None, serverRequestTimeout = None, lang = None \<rparr>"

text \<open>
  JavaScript truthiness, as used by \<^verbatim>\<open>if (message.x)\<close> and \<^verbatim>\<open>this.x ? a : b\<close>: \<^verbatim>\<open>undefined\<close>,
  the empty string and the number zero are falsy; an object is always truthy.
\<close>

definition truthy_string :: "string option \<Rightarrow> bool" where
  "truthy_string v = (case v of None \<Rightarrow> False | Some s \<Rightarrow> s \<noteq> [])"

definition truthy_number :: "int option \<Rightarrow> bool" where
  "truthy_number v = (case v of None \<Rightarrow> False | Some n \<Rightarrow> n \<noteq> 0)"

section \<open>Built-in conversions used by the deep link\<close>

text \<open>
  \<^verbatim>\<open>encodeURIComponent\<close> on a string given as its UTF-8 bytes: the unreserved characters
  \<^verbatim>\<open>A-Z a-z 0-9 - _ . ! ~ * ' ( )\<close> are kept, every other byte becomes \<^verbatim>\<open>%XX\<close> with upper-case
  hexadecimal digits.
\<close>

definition uri_unreserved :: "char \<Rightarrow> bool" where
  "uri_unreserved c =
     (c \<in> set ''ABCDEFGHIJKLMNOPQRSTUVWXYZabcdefghijklmnopqrstuvwxyz0123456789-_.!~*'()'')"

definition percent_byte :: "char \<Rightarrow> string" where
  "percent_byte c =
     [CHR ''%'', ''0123456789ABCDEF'' ! ((of_char c :: nat) div 16),
      ''0123456789ABCDEF'' ! ((of_char c :: nat) mod 16)]"

definition encodeURIComponent :: "string \<Rightarrow> string" where
  "encodeURIComponent s = concat (map (\<lambda>c. if uri_unreserved c then [c] else percent_byte c) s)"

text \<open>
  String conversion of a number (\<^verbatim>\<open>"" + n\<close>) for the integers that a JavaScript number holds
  exactly, those of magnitude below \<open>2^53\<close>: the decimal digits, with a sign.  This is what
  \<open>number_toString\<close> computes; for a larger magnitude JavaScript prints rounded digits or an
  exponent (\<^verbatim>\<open>1e+21\<close>), which \<open>number_toString\<close> does not model, so it is used for safe integers
  only.  The status codes printed by \<open>nat_toString\<close> are three-digit numbers.
\<close>

fun nat_toString :: "nat \<Rightarrow> string" where
  "nat_toString n =
     (if n < 10 then [''0123456789'' ! n]
      else nat_toString (n div 10) @ [''0123456789'' ! (n mod 10)])"

declare nat_toString.simps [simp del]

definition number_toString :: "int \<Rightarrow> string" where
  "number_toString i = (if i < 0 then CHR ''-'' # nat_toString (nat (- i)) else nat_toString (nat i))"

definition safe_integer :: "int option \<Rightarrow> bool" where
  "safe_integer v = (case v of None \<Rightarrow> True | Some n \<Rightarrow> \<bar>n\<bar> < 2 ^ 53)"

text \<open>
  \<^verbatim>\<open>JSON.stringify\<close> of a header object whose values are strings: the members in enumeration
  order, keys and values quoted with the JSON escapes.
\<close>

definition json_escape :: "char \<Rightarrow> string" where
  "json_escape c =
     (let n = (of_char c :: nat) in
      if n = 0x08 then [CHR 0x5C, CHR ''b'']
      else if n = 0x09 then [CHR 0x5C, CHR ''t'']
      else if n = 0x0A then [CHR 0x5C, CHR ''n'']
      else if n = 0x0C then [CHR 0x5C, CHR ''f'']
      else if n = 0x0D then [CHR 0x5C, CHR ''r'']
      else if n = 0x22 then [CHR 0x5C, CHR 0x22]
      else if n = 0x5C then [CHR 0x5C, CHR 0x5C]
      else if n < 0x20 then
        [CHR 0x5C, CHR ''u'', CHR ''0'', CHR ''0'',
         ''0123456789abcdef'' ! (n div 16), ''0123456789abcdef'' ! (n mod 16)]
      else [c])"

definition json_quote :: "string \<Rightarrow> string" where
  "json_quote s = CHR 0x22 # concat (map json_escape s) @ [CHR 0x22]"

fun json_members :: "(string \<times> string) list \<Rightarrow> string" where
  "json_members [] = []"
| "json_members [(k, v)] = json_quote k @ '':'' @ json_quote v"
| "json_members ((k, v) # kvs) = json_quote k @ '':'' @ json_quote v @ '','' @ json_members kvs"

definition JSON_stringify :: "(string \<times> string) list \<Rightarrow> string" where
  "JSON_stringify h = ''{'' @ json_members h @ ''}''"

section \<open>IntentUrl\<close>

record IntentUrl =
  iu_action :: "string option"
  iu_getAuthChallengeUrl :: "string option"
  iu_postAuthTokenUrl :: "string option"
  iu_postPrepareSigningUrl :: "string option"
  iu_postFinalizeSigningUrl :: "string option"
  iu_applicationName :: "string option"
  iu_actionDescription :: "string option"
  iu_headers :: "(string \<times> string) list option"
  iu_userInteractionTimeout :: "int option"
  iu_serverRequestTimeout :: "int option"
  iu_lang :: "string option"

text \<open>
  The assignments of the constructor: \<^verbatim>\<open>this.action = message.action\<close>, and every other field
  is copied only under \<^verbatim>\<open>if (message.field)\<close>, so a falsy value stays \<^verbatim>\<open>undefined\<close>.
\<close>

definition copy_string :: "string option \<Rightarrow> string option" where
  "copy_string v = (if truthy_string v then v else None)"

definition copy_number :: "int option \<Rightarrow> int option" where
  "copy_number v = (if truthy_number v then v else None)"

definition IntentUrl_assign :: "Message \<Rightarrow> IntentUrl" where
  "IntentUrl_assign m =
     \<lparr> iu_action = Some (action m),
       iu_getAuthChallengeUrl = copy_string (getAuthChallengeUrl m),
       iu_postAuthTokenUrl = copy_string (postAuthTokenUrl m),
       iu_postPrepareSigningUrl = copy_string (postPrepareSigningUrl m),
       iu_postFinalizeSigningUrl = copy_string (postFinalizeSigningUrl m),
       iu_applicationName = copy_string (applicationName m),
       iu_actionDescription = copy_string (actionDescription m),
       iu_headers = headers m,
       iu_userInteractionTimeout = copy_number (userInteractionTimeout m),
       iu_serverRequestTimeout = copy_number (serverRequestTimeout m),
       iu_lang = copy_string (lang m) \<rparr>"

text \<open>\<^verbatim>\<open>validate()\<close>: the condition of the source, \<^verbatim>\<open>x == null\<close> being \<open>x = None\<close>.\<close>

definition validate :: "IntentUrl \<Rightarrow> web_eid_error + unit" where
  "validate u =
     (if iu_action u = None \<or>
         ((iu_getAuthChallengeUrl u = None \<or> iu_postAuthTokenUrl u = None) \<and>
          (iu_postFinalizeSigningUrl u = None \<or> iu_postPrepareSigningUrl u = None))
      then Inl (MissingParameterError ''Missing parameters for IntentUrl.'')
      else Inr ())"

text \<open>\<^verbatim>\<open>new IntentUrl(message)\<close>: the assignments, then \<^verbatim>\<open>this.validate()\<close>.\<close>

definition new_IntentUrl :: "Message \<Rightarrow> web_eid_error + IntentUrl" where
  "new_IntentUrl m =
     (let u = IntentUrl_assign m in
      case validate u of Inl e \<Rightarrow> Inl e | Inr _ \<Rightarrow> Inr u)"

text \<open>
  \<^verbatim>\<open>toString()\<close>.  The first argument is \<^verbatim>\<open>config.AUTH_APP_INTENT_URL_BASE\<close>.  Each line of
  the source is \<^verbatim>\<open>url += this.f ? "&f=\"" + value + "\"" : ""\<close>; six values go through
  \<^verbatim>\<open>encodeURIComponent\<close>, the headers through \<^verbatim>\<open>JSON.stringify\<close>, the two numbers and
  \<^verbatim>\<open>lang\<close> are concatenated as they are.
\<close>

definition quoted_param :: "string \<Rightarrow> string \<Rightarrow> string" where
  \<open>quoted_param name v = ''&'' @ name @ ''="'' @ v @ ''"''\<close>

definition encoded_param :: "string \<Rightarrow> string option \<Rightarrow> string" where
  "encoded_param name v =
     (case v of None \<Rightarrow> [] | Some s \<Rightarrow> if s = [] then [] else quoted_param name (encodeURIComponent s))"

definition raw_param :: "string \<Rightarrow> string option \<Rightarrow> string" where
  "raw_param name v =
     (case v of None \<Rightarrow> [] | Some s \<Rightarrow> if s = [] then [] else quoted_param name s)"

definition number_param :: "string \<Rightarrow> int option \<Rightarrow> string" where
  "number_param name v =
     (case v of None \<Rightarrow> [] | Some n \<Rightarrow> if n = 0 then [] else quoted_param name (number_toString n))"

definition headers_param :: "(string \<times> string) list option \<Rightarrow> string" where
  "headers_param v =
     (case v of None \<Rightarrow> [] | Some h \<Rightarrow> quoted_param ''headers'' (JSON_stringify h))"

definition toString :: "string \<Rightarrow> IntentUrl \<Rightarrow> string" where
  \<open>toString base u =
     base @ ''?action="'' @ (case iu_action u of None \<Rightarrow> ''undefined'' | Some a \<Rightarrow> a) @ ''"''
       @ encoded_param ''getAuthChallengeUrl'' (iu_getAuthChallengeUrl u)
       @ encoded_param ''postAuthTokenUrl'' (iu_postAuthTokenUrl u)
       @ encoded_param ''postPrepareSigningUrl'' (iu_postPrepareSigningUrl u)
       @ encoded_param ''postFinalizeSigningUrl'' (iu_postFinalizeSigningUrl u)
       @ encoded_param ''applicationName'' (iu_applicationName u)
       @ encoded_param ''actionDescription'' (iu_actionDescription u)
       @ headers_param (iu_headers u)
       @ number_param ''userInteractionTimeout'' (iu_userInteractionTimeout u)
       @ number_param ''serverRequestTimeout'' (iu_serverRequestTimeout u)
       @ raw_param ''lang'' (iu_lang u)\<close>


section \<open>Actions\<close>

text \<open>
  Modelled from the spec: the values of the \<^verbatim>\<open>Action\<close> enumeration (\<^verbatim>\<open>models/Action\<close>), which
  the service imports.  The specification gives three operation kinds, each with the four
  textual variants base, \<^verbatim>\<open>-ack\<close>, \<^verbatim>\<open>-success\<close>, \<^verbatim>\<open>-failure\<close>, under the fixed namespace
  prefix, and spells \<^verbatim>\<open>web-eid:authenticate\<close> and \<^verbatim>\<open>web-eid:authenticate-ack\<close> out.
\<close>

definition AUTHENTICATE :: string where "AUTHENTICATE = ''web-eid:authenticate''"
definition AUTHENTICATE_ACK :: string where "AUTHENTICATE_ACK = ''web-eid:authenticate-ack''"
definition AUTHENTICATE_SUCCESS :: string where "AUTHENTICATE_SUCCESS = ''web-eid:authenticate-success''"
definition AUTHENTICATE_FAILURE :: string where "AUTHENTICATE_FAILURE = ''web-eid:authenticate-failure''"
definition SIGN :: string where "SIGN = ''web-eid:sign''"
definition SIGN_ACK :: string where "SIGN_ACK = ''web-eid:sign-ack''"
definition SIGN_SUCCESS :: string where "SIGN_SUCCESS = ''web-eid:sign-success''"
definition SIGN_FAILURE :: string where "SIGN_FAILURE = ''web-eid:sign-failure''"
definition STATUS :: string where "STATUS = ''web-eid:status''"
definition STATUS_ACK :: string where "STATUS_ACK = ''web-eid:status-ack''"
definition STATUS_SUCCESS :: string where "STATUS_SUCCESS = ''web-eid:status-success''"
definition STATUS_FAILURE :: string where "STATUS_FAILURE = ''web-eid:status-failure''"

text \<open>The three \<^verbatim>\<open>switch (message.action)\<close> tables; the default branch is the status variant.\<close>

definition getRelevantAckAction :: "Message \<Rightarrow> string" where
  "getRelevantAckAction m =
     (if action m = AUTHENTICATE then AUTHENTICATE_ACK
      else if action m = SIGN then SIGN_ACK
      else if action m = STATUS then STATUS_ACK
      else STATUS_ACK)"

definition getRelevantSuccessAction :: "Message \<Rightarrow> string" where
  "getRelevantSuccessAction m =
     (if action m = AUTHENTICATE then AUTHENTICATE_SUCCESS
      else if action m = SIGN then SIGN_SUCCESS
      else if action m = STATUS then STATUS_SUCCESS
      else STATUS_SUCCESS)"

definition getRelevantErrorAction :: "Message \<Rightarrow> string" where
  "getRelevantErrorAction m =
     (if action m = AUTHENTICATE then AUTHENTICATE_FAILURE
      else if action m = SIGN then SIGN_FAILURE
      else if action m = STATUS then STATUS_FAILURE
      else STATUS_FAILURE)"

text \<open>
  \<^verbatim>\<open>message.action?.match(/success$|failure$|ack$/)?.[0]\<close>: the leftmost position whose
  remaining text is exactly one of the alternatives (no hyphen in this pattern).
\<close>

fun match_suffix :: "string \<Rightarrow> string option" where
  "match_suffix [] = None"
| "match_suffix (c # cs) =
     (if c # cs = ''success'' \<or> c # cs = ''failure'' \<or> c # cs = ''ack'' then Some (c # cs)
      else match_suffix cs)"

section \<open>The service: registry, timers, futures\<close>

text \<open>
  A \<^verbatim>\<open>PendingMessage\<close> as \<^verbatim>\<open>send\<close> leaves it: the outgoing message, the promise (a handle into
  the store of promises; \<^verbatim>\<open>resolve\<close> and \<^verbatim>\<open>reject\<close> are the two settling functions of that
  promise) and the handles returned by the two \<^verbatim>\<open>setTimeout\<close> calls.
\<close>

record PendingMessage =
  message :: Message
  promise :: nat
  ackTimer :: nat
  replyTimer :: nat

text \<open>The two arrow functions given to \<^verbatim>\<open>setTimeout\<close>; each closes over its \<^verbatim>\<open>pending\<close>.\<close>

datatype timer_callback = AckTimeout PendingMessage | ReplyTimeout PendingMessage

record timer =
  timer_id :: nat
  deadline :: nat
  callback :: timer_callback

datatype reason = Err web_eid_error | Raw Message

datatype settlement = Pending | Fulfilled Message | Rejected reason

record http_request =
  req_host :: string
  req_port :: string
  req_path :: string
  req_headers :: "(string \<times> string) list option"
  req_timeout :: int
  req_message :: Message

datatype dom_effect =
    Navigate string
  | CanvasHtml string
  | AddVisibilityListener Message
  | Alert string

text \<open>
  Which of the two copies of \<^verbatim>\<open>WebExtensionService\<close> handles the answers of the poll
  request: the copy under \<^verbatim>\<open>src/services\<close> or the copy in \<^verbatim>\<open>part_000\<close>.  Everything else in
  the two copies is the same code.
\<close>

datatype revision = Services_copy | Part_000

text \<open>
  What the service takes from its surroundings, as parameters: the two constants of
  \<^verbatim>\<open>config\<close>, \<^verbatim>\<open>window.isSecureContext\<close>, \<^verbatim>\<open>isAndroidDevice()\<close>, \<^verbatim>\<open>deserializeError\<close> of
  \<^verbatim>\<open>utils/errorSerializer\<close>, the \<^verbatim>\<open>URL\<close> parser (\<open>None\<close> when it throws; otherwise host name,
  port and path), \<^verbatim>\<open>QrCode.encodeText\<close> followed by \<^verbatim>\<open>toSvgString\<close> (\<open>None\<close> when encoding
  throws), and whether the document has an element with id \<^verbatim>\<open>canvas\<close>.
\<close>

record env =
  EXTENSION_HANDSHAKE_TIMEOUT :: int
  AUTH_APP_INTENT_URL_BASE :: string
  isSecureContext :: bool
  isAndroidDevice :: bool
  deserializeError :: "web_eid_error \<Rightarrow> web_eid_error"
  parse_url :: "string \<Rightarrow> (string \<times> string \<times> string) option"
  qr_svg :: "string \<Rightarrow> string option"
  has_canvas :: bool
  revision :: revision

text \<open>
  The state: the \<^verbatim>\<open>queue\<close> of the service; the promises created by \<^verbatim>\<open>send\<close>; the armed
  timers of the window in creation order, with the clock in milliseconds; the messages
  given to \<^verbatim>\<open>window.postMessage\<close> and not yet dispatched to the listener; the poll requests
  whose answer is outstanding; and the other effects on the page, in order.
\<close>

record state =
  queue :: "PendingMessage list"
  promises :: "nat \<rightharpoonup> settlement"
  next_promise :: nat
  timers :: "timer list"
  next_timer :: nat
  now :: nat
  inbox :: "Message list"
  requests :: "http_request list"
  effects :: "dom_effect list"

definition init :: state where
  "init = \<lparr> queue = [], promises = Map.empty, next_promise = 0, timers = [], next_timer = 0,
            now = 0, inbox = [], requests = [], effects = [] \<rparr>"

text \<open>
  The delay of \<^verbatim>\<open>setTimeout(f, t)\<close> for a whole number \<open>t\<close> of milliseconds, of either sign: the
  argument is read as a signed 32-bit integer, that is modulo \<open>2^32\<close> with the values from
  \<open>2^31\<close> on negative, and a negative delay counts as zero.  Timeouts are whole numbers
  throughout; a number with a fraction is outside the model.
\<close>

definition timer_delay :: "int \<Rightarrow> nat" where
  "timer_delay t = (let w = t mod 2 ^ 32 in if w < 2 ^ 31 then nat w else 0)"

text \<open>\<^verbatim>\<open>clearTimeout(id)\<close>: disarms that timer; nothing happens when it is not armed.\<close>

definition clearTimeout :: "nat \<Rightarrow> state \<Rightarrow> state" where
  "clearTimeout i s = s\<lparr>timers := filter (\<lambda>t. timer_id t \<noteq> i) (timers s)\<rparr>"

text \<open>
  \<^verbatim>\<open>pending.resolve?.(v)\<close> and \<^verbatim>\<open>pending.reject?.(v)\<close>: a promise is settled by the first call
  only; later calls leave it as it is.
\<close>

definition settle :: "nat \<Rightarrow> settlement \<Rightarrow> state \<Rightarrow> state" where
  "settle pid v s =
     (case promises s pid of
        Some Pending \<Rightarrow> s\<lparr>promises := (promises s)(pid \<mapsto> v)\<rparr>
      | _ \<Rightarrow> s)"

definition getPendingMessage :: "string \<Rightarrow> state \<Rightarrow> PendingMessage option" where
  "getPendingMessage a s = find (\<lambda>pm. action (message pm) = a) (queue s)"

definition removeFromQueue :: "string \<Rightarrow> state \<Rightarrow> state" where
  "removeFromQueue a s =
     (let pending = getPendingMessage a s;
          s1 = (case pending of None \<Rightarrow> s | Some p \<Rightarrow> clearTimeout (replyTimer p) s)
      in s1\<lparr>queue := filter (\<lambda>p. action (message p) \<noteq> a) (queue s1)\<rparr>)"

definition onReplyTimeout :: "PendingMessage \<Rightarrow> state \<Rightarrow> state" where
  "onReplyTimeout p s =
     removeFromQueue (action (message p)) (settle (promise p) (Rejected (Err ActionTimeoutError)) s)"

definition onAckTimeout :: "PendingMessage \<Rightarrow> state \<Rightarrow> state" where
  "onAckTimeout p s =
     (let s1 = (if useAuthApp (message p) = Some True
                then settle (promise p) (Rejected (Err AuthAppNotInstalledError)) s
                else settle (promise p) (Rejected (Err ExtensionUnavailableError)) s);
          s2 = removeFromQueue (action (message p)) s1
      in clearTimeout (replyTimer p) s2)"

text \<open>
  \<^verbatim>\<open>receive(event)\<close> with \<^verbatim>\<open>event.data\<close> a message.  Data without an action fails the prefix
  test and is ignored, so only messages are considered.
\<close>

definition receive :: "env \<Rightarrow> Message \<Rightarrow> state \<Rightarrow> state" where
  "receive e m s =
     (if \<not> prefix ''web-eid:'' (action m) then s
      else
        let suffix = match_suffix (action m);
            initialAction = getInitialAction (action m);
            pending = getPendingMessage initialAction s
        in case pending of
             None \<Rightarrow> s
           | Some p \<Rightarrow>
               if suffix = Some ''ack'' then clearTimeout (ackTimer p) s
               else if suffix = Some ''success'' then
                 removeFromQueue initialAction (settle (promise p) (Fulfilled m) s)
               else if suffix = Some ''failure'' then
                 removeFromQueue initialAction
                   (settle (promise p)
                      (Rejected (case error m of Some x \<Rightarrow> Err (deserializeError e x) | None \<Rightarrow> Raw m)) s)
               else s)"

text \<open>\<^verbatim>\<open>window.postMessage(m, origin)\<close> to the page's own window.\<close>

definition postMessage :: "Message \<Rightarrow> state \<Rightarrow> state" where
  "postMessage m s = s\<lparr>inbox := inbox s @ [m]\<rparr>"

text \<open>
  \<^verbatim>\<open>launchAuthApp\<close> and \<^verbatim>\<open>displayQRCode\<close>.  The first component of the result is the exception
  that leaves the function, if any: the \<^verbatim>\<open>IntentUrl\<close> constructor throws, and so may the QR
  encoder.  The visibility listener added by \<^verbatim>\<open>launchAuthApp\<close> only posts an \<^verbatim>\<open>-ack\<close> message
  when the page is hidden; it is recorded, and its message is one of the messages the
  window may receive.
\<close>

definition launchAuthApp :: "env \<Rightarrow> Message \<Rightarrow> state \<Rightarrow> web_eid_error option \<times> state" where
  "launchAuthApp e m s =
     (case new_IntentUrl m of
        Inl x \<Rightarrow> (Some x, s)
      | Inr u \<Rightarrow>
          (None, s\<lparr>effects := effects s @
                     [AddVisibilityListener m, Navigate (toString (AUTH_APP_INTENT_URL_BASE e) u)]\<rparr>))"

definition displayQRCode :: "env \<Rightarrow> Message \<Rightarrow> state \<Rightarrow> web_eid_error option \<times> state" where
  "displayQRCode e m s =
     (case new_IntentUrl m of
        Inl x \<Rightarrow> (Some x, s)
      | Inr u \<Rightarrow>
          (case qr_svg e (toString (AUTH_APP_INTENT_URL_BASE e) u) of
             None \<Rightarrow> (Some (OtherError ''QrCode.encodeText''), s)
           | Some svg \<Rightarrow>
               (None,
                postMessage (action_only (getRelevantAckAction m))
                  (if has_canvas e then s\<lparr>effects := effects s @ [CanvasHtml svg]\<rparr> else s))))"

text \<open>
  \<^verbatim>\<open>pollForLoginSuccess(message, timeout)\<close>: \<open>Inl\<close> is the error the returned promise is
  rejected with, \<open>Inr\<close> the request handed to \<^verbatim>\<open>https.get\<close>.
\<close>

definition pollForLoginSuccess :: "env \<Rightarrow> Message \<Rightarrow> int \<Rightarrow> web_eid_error + http_request" where
  "pollForLoginSuccess e m timeout =
     (if truthy_string (getAuthSuccessUrl m) then
        (case getAuthSuccessUrl m of
           None \<Rightarrow> Inl (MissingParameterError
                         ''getAuthSuccessUrl missing for Android auth app authentication option.'')
         | Some u \<Rightarrow>
             if \<not> prefix ''https://'' u
             then Inl (ProtocolInsecureError (''HTTPS required for getAuthSuccessUrl '' @ u))
             else
               (case parse_url e u of
                  None \<Rightarrow> Inl (OtherError ''Invalid URL'')
                | Some (host, port, path) \<Rightarrow>
                    Inr \<lparr> req_host = host, req_port = port, req_path = path,
                          req_headers = headers m, req_timeout = timeout, req_message = m \<rparr>))
      else Inl (MissingParameterError
                  ''getAuthSuccessUrl missing for Android auth app authentication option.''))"

text \<open>
  \<^verbatim>\<open>publishMessage(message, timeout)\<close>.  When the poll promise is rejected nothing is attached
  to it, so the state stays as it is; when it yields a request, the handlers are attached
  and the request waits for its answer.
\<close>

definition publishMessage :: "env \<Rightarrow> Message \<Rightarrow> int \<Rightarrow> state \<Rightarrow> web_eid_error option \<times> state" where
  "publishMessage e m timeout s =
     (if useAuthApp m = Some True then
        (case (if isAndroidDevice e then launchAuthApp e m s else displayQRCode e m s) of
           (Some x, s1) \<Rightarrow> (Some x, s1)
         | (None, s1) \<Rightarrow>
             (None,
              case pollForLoginSuccess e m timeout of
                Inl _ \<Rightarrow> s1
              | Inr r \<Rightarrow> s1\<lparr>requests := requests s1 @ [r]\<rparr>))
      else (None, postMessage m s))"

text \<open>
  \<^verbatim>\<open>send(message, timeout)\<close>, the timeout being a whole number of milliseconds.  The result is
  the promise returned, the error of an already rejected promise, or the exception that
  \<^verbatim>\<open>publishMessage\<close> lets through.  The two timers are due \<open>timer_delay\<close> of the handshake
  timeout and of the caller's timeout after the call.
\<close>

datatype send_result = Returned nat | RejectedWith web_eid_error | Threw web_eid_error

definition send :: "env \<Rightarrow> Message \<Rightarrow> int \<Rightarrow> state \<Rightarrow> send_result \<times> state" where
  "send e m timeout s =
     (if getPendingMessage (action m) s \<noteq> None then (RejectedWith ActionPendingError, s)
      else if \<not> isSecureContext e then (RejectedWith ContextInsecureError, s)
      else
        let pending = \<lparr> message = m, promise = next_promise s,
                        ackTimer = next_timer s, replyTimer = next_timer s + 1 \<rparr>;
            s1 = s\<lparr> queue := queue s @ [pending],
                    promises := (promises s)(next_promise s \<mapsto> Pending),
                    next_promise := next_promise s + 1,
                    timers := timers s @
                      [\<lparr> timer_id = next_timer s,
                         deadline = now s + timer_delay (EXTENSION_HANDSHAKE_TIMEOUT e),
                         callback = AckTimeout pending \<rparr>,
                       \<lparr> timer_id = next_timer s + 1,
                         deadline = now s + timer_delay timeout,
                         callback = ReplyTimeout pending \<rparr>],
                    next_timer := next_timer s + 2 \<rparr>
        in case publishMessage e m timeout s1 of
             (None, s2) \<Rightarrow> (Returned (promise pending), s2)
           | (Some x, s2) \<Rightarrow> (Threw x, s2))"

text \<open>The handlers of the poll request in \<^verbatim>\<open>part_000\<close>.\<close>

definition status_error :: "nat \<Rightarrow> web_eid_error" where
  "status_error status =
     (if status = 400 then MissingParameterError ''A parameter is missing!''
      else if status = 403 then ServerRejectedError None
      else if status = 408 then ServerTimeoutError
      else if status = 444 then UserCancelledError
      else if status = 449 then UserPinError
      else UnknownError (''Error code: '' @ nat_toString status))"

definition on_response :: "Message \<Rightarrow> nat \<Rightarrow> state \<Rightarrow> state" where
  "on_response m status s =
     (if status = 200 then postMessage (action_only (getRelevantSuccessAction m)) s
      else postMessage ((action_only (getRelevantErrorAction m))\<lparr>error := Some (status_error status)\<rparr>) s)"

definition on_error :: "Message \<Rightarrow> state \<Rightarrow> state" where
  "on_error m s =
     postMessage ((action_only (getRelevantErrorAction m))\<lparr>error := Some (ServerRejectedError None)\<rparr>) s"

text \<open>
  The handlers of the poll request in the copy under \<^verbatim>\<open>src/services\<close>.  The promise that
  its error handler returns goes to the event emitter, which drops it.
\<close>

definition displayRelevantError :: "nat \<Rightarrow> state \<Rightarrow> state" where
  "displayRelevantError errorCode s =
     s\<lparr>effects := effects s @
        [Alert (if errorCode = 400 then ''Parameter missing.''
                else if errorCode = 408 then ''User actions timed out.''
                else if errorCode = 444 then ''User cancelled action.''
                else if errorCode = 449 then ''Invalid PIN or CAN.''
                else ''Authentication failed.'')]\<rparr>"

definition on_response_services :: "Message \<Rightarrow> nat \<Rightarrow> state \<Rightarrow> state" where
  "on_response_services m status s =
     (if status = 200 then postMessage (action_only (getRelevantSuccessAction m)) s
      else removeFromQueue (action m) (displayRelevantError status s))"

definition on_error_services :: "Message \<Rightarrow> state \<Rightarrow> state" where
  "on_error_services m s = removeFromQueue (action m) s"

section \<open>Events\<close>

text \<open>
  A timer that fires is disarmed and its callback runs.  When time passes, the timers that
  are due fire in the order of their deadlines, timers with the same deadline in the order
  of their creation, which is the order of their handles; a timer cleared by an earlier
  callback does not fire.  No callback of the service arms a timer, so the timers due are
  among those armed at the start.
\<close>

definition fire :: "timer \<Rightarrow> state \<Rightarrow> state" where
  "fire t s =
     (let s1 = s\<lparr>timers := filter (\<lambda>u. timer_id u \<noteq> timer_id t) (timers s),
                 now := max (now s) (deadline t)\<rparr>
      in case callback t of
           AckTimeout p \<Rightarrow> onAckTimeout p s1
         | ReplyTimeout p \<Rightarrow> onReplyTimeout p s1)"

definition fire_if_armed :: "state \<Rightarrow> timer \<Rightarrow> state" where
  "fire_if_armed s t = (if t \<in> set (timers s) then fire t s else s)"

definition elapse :: "nat \<Rightarrow> state \<Rightarrow> state" where
  "elapse d s =
     (let due = sort_key (\<lambda>t. (deadline t, timer_id t))
                  (filter (\<lambda>t. deadline t \<le> now s + d) (timers s));
          s1 = foldl fire_if_armed s due
      in s1\<lparr>now := now s + d\<rparr>)"

text \<open>
  What can happen to the service: a call of \<^verbatim>\<open>send\<close>; a message from elsewhere arriving at
  the window; the dispatch of the oldest message the page posted to itself; time passing;
  the answer or the failure of the \<open>i\<close>-th outstanding poll request.
\<close>

datatype event =
    Send Message int
  | Receive Message
  | Deliver
  | Elapse nat
  | PollResponse nat nat
  | PollError nat

definition step :: "env \<Rightarrow> state \<Rightarrow> event \<Rightarrow> state" where
  "step e s ev =
     (case ev of
        Send m timeout \<Rightarrow> snd (send e m timeout s)
      | Receive m \<Rightarrow> receive e m s
      | Deliver \<Rightarrow> (case inbox s of [] \<Rightarrow> s | m # ms \<Rightarrow> receive e m (s\<lparr>inbox := ms\<rparr>))
      | Elapse d \<Rightarrow> elapse d s
      | PollResponse i status \<Rightarrow>
          (if i < length (requests s) then
             (let r = requests s ! i;
                  s1 = s\<lparr>requests := take i (requests s) @ drop (Suc i) (requests s)\<rparr>
              in case revision e of
                   Part_000 \<Rightarrow> on_response (req_message r) status s1
                 | Services_copy \<Rightarrow> on_response_services (req_message r) status s1)
           else s)
      | PollError i \<Rightarrow>
          (if i < length (requests s) then
             (let r = requests s ! i;
                  s1 = s\<lparr>requests := take i (requests s) @ drop (Suc i) (requests s)\<rparr>
              in case revision e of
                   Part_000 \<Rightarrow> on_error (req_message r) s1
                 | Services_copy \<Rightarrow> on_error_services (req_message r) s1)
           else s))"

definition run :: "env \<Rightarrow> event list \<Rightarrow> state \<Rightarrow> state" where
  "run e evs s = foldl (step e) s evs"

section \<open>The invariant of the service\<close>

text \<open>
  The pending messages the service can still reach: those in the queue and those a timer
  callback closes over.  The invariant of the reachable states: the actions in the queue
  are pairwise different; a registered request is unsettled; promises and timer handles
  are handed out in increasing order; pending messages that can be reached have different
  promises and different timer handles; every armed timer carries the handle its pending
  message stores.
\<close>

fun pending_of :: "timer_callback \<Rightarrow> PendingMessage" where
  "pending_of (AckTimeout p) = p"
| "pending_of (ReplyTimeout p) = p"

fun handle_of :: "timer_callback \<Rightarrow> nat" where
  "handle_of (AckTimeout p) = ackTimer p"
| "handle_of (ReplyTimeout p) = replyTimer p"

definition known :: "state \<Rightarrow> PendingMessage set" where
  "known s = set (queue s) \<union> (\<lambda>t. pending_of (callback t)) ` set (timers s)"

definition inv_known :: "state \<Rightarrow> bool" where
  "inv_known s =
     ((\<forall>p \<in> known s. \<forall>q \<in> known s. promise p = promise q \<longrightarrow> p = q) \<and>
      (\<forall>p \<in> known s. promise p < next_promise s \<and> ackTimer p < replyTimer p \<and>
          replyTimer p < next_timer s) \<and>
      (\<forall>p \<in> known s. \<forall>q \<in> known s. p \<noteq> q \<longrightarrow>
          ackTimer p \<noteq> ackTimer q \<and> ackTimer p \<noteq> replyTimer q \<and> replyTimer p \<noteq> replyTimer q))"

definition inv_timers :: "state \<Rightarrow> bool" where
  "inv_timers s =
     (\<forall>t \<in> set (timers s). timer_id t = handle_of (callback t) \<and> timer_id t < next_timer s)"

definition inv :: "state \<Rightarrow> bool" where
  "inv s =
     (distinct (map (\<lambda>p. action (message p)) (queue s)) \<and>
      (\<forall>p \<in> set (queue s). promises s (promise p) = Some Pending) \<and>
      (\<forall>pid. promises s pid \<noteq> None \<longrightarrow> pid < next_promise s) \<and>
      inv_known s \<and> inv_timers s)"

text \<open>
  Two relations used below.  \<open>advances s s'\<close>: the promises settled in \<open>s\<close> are settled the same
  way in \<open>s'\<close>, and the timer handles handed out and disarmed in \<open>s\<close> are disarmed in \<open>s'\<close>.
  \<open>orphan pid s\<close>: the promise \<open>pid\<close> is unsettled and no pending message within reach of the
  service owns it.
\<close>

definition advances :: "state \<Rightarrow> state \<Rightarrow> bool" where
  "advances s s' =
     (next_promise s \<le> next_promise s' \<and> next_timer s \<le> next_timer s' \<and>
      (\<forall>pid v. pid < next_promise s \<longrightarrow> promises s pid = Some v \<longrightarrow> v \<noteq> Pending \<longrightarrow>
         promises s' pid = Some v) \<and>
      (\<forall>i. i < next_timer s \<longrightarrow> i \<notin> timer_id ` set (timers s) \<longrightarrow>
         i \<notin> timer_id ` set (timers s')))"

definition orphan :: "nat \<Rightarrow> state \<Rightarrow> bool" where
  "orphan pid s =
     (promises s pid = Some Pending \<and> pid < next_promise s \<and> pid \<notin> promise ` known s)"

section \<open>Requests in time\<close>

text \<open>
  The time a run takes; the message an event hands to the listener \<^verbatim>\<open>receive\<close>; and what such
  a message is for the request registered under the action \<open>a\<close>, read off \<^verbatim>\<open>receive\<close>: it is an
  ack for \<open>a\<close> when it passes the prefix test, its action without the suffix is \<open>a\<close> and the
  suffix found is \<^verbatim>\<open>ack\<close>, and it is terminal for \<open>a\<close> when the suffix found is \<^verbatim>\<open>success\<close> or
  \<^verbatim>\<open>failure\<close>.  An event drops \<open>a\<close> when it is the answer of a poll request for a message with
  the action \<open>a\<close> that makes the copy under \<^verbatim>\<open>src/services\<close> call \<^verbatim>\<open>removeFromQueue\<close>.
\<close>

fun elapsed :: "event list \<Rightarrow> nat" where
  "elapsed [] = 0"
| "elapsed (Elapse d # evs) = d + elapsed evs"
| "elapsed (ev # evs) = elapsed evs"

definition dispatched :: "state \<Rightarrow> event \<Rightarrow> Message option" where
  "dispatched s ev =
     (case ev of
        Receive m \<Rightarrow> Some m
      | Deliver \<Rightarrow> (case inbox s of [] \<Rightarrow> None | m # ms \<Rightarrow> Some m)
      | _ \<Rightarrow> None)"

definition ack_for :: "string \<Rightarrow> Message \<Rightarrow> bool" where
  "ack_for a m =
     (prefix ''web-eid:'' (action m) \<and> getInitialAction (action m) = a \<and>
      match_suffix (action m) = Some ''ack'')"

definition terminal_for :: "string \<Rightarrow> Message \<Rightarrow> bool" where
  "terminal_for a m =
     (prefix ''web-eid:'' (action m) \<and> getInitialAction (action m) = a \<and>
      (match_suffix (action m) = Some ''success'' \<or> match_suffix (action m) = Some ''failure''))"


text \<open>
  Conditions on a run.  \<open>stays_before h\<close>: the run does not let \<open>h\<close> milliseconds pass, that is
  no \<open>Elapse\<close> event of it ends \<open>h\<close> milliseconds or more after its start (a timer set to \<open>h\<close>
  at the start is not yet due).  For a run that starts in the state \<open>s\<close>, \<open>unanswered\<close>: no
  event dispatches an ack or a terminal message for \<open>a\<close>; \<open>unconcluded\<close>: no event dispatches
  a terminal message for \<open>a\<close> and none drops \<open>a\<close>; \<open>acknowledged\<close>: some event dispatches an ack
  for \<open>a\<close>, and the events before it do not let \<open>h\<close> milliseconds pass.
\<close>

fun stays_before :: "nat \<Rightarrow> event list \<Rightarrow> bool" where
  "stays_before h [] = True"
| "stays_before h (Elapse d # evs) = (d < h \<and> stays_before (h - d) evs)"
| "stays_before h (ev # evs) = stays_before h evs"

fun unanswered :: "env \<Rightarrow> string \<Rightarrow> state \<Rightarrow> event list \<Rightarrow> bool" where
  "unanswered e a s [] = True"
| "unanswered e a s (ev # evs) =
     ((case dispatched s ev of None \<Rightarrow> True | Some m \<Rightarrow> \<not> ack_for a m \<and> \<not> terminal_for a m) \<and>
      unanswered e a (step e s ev) evs)"



text \<open>
  The two timers that \<open>send\<close> arms for the pending message \<open>p\<close>, with their deadlines, and two
  situations of \<open>p\<close> in a state.  \<open>awaits_ack\<close>: the future of \<open>p\<close> is unsettled and its ack
  timer is armed.  \<open>awaits_reply\<close>: \<open>p\<close> is registered, its reply timer is armed and every armed
  timer of a request with the action of \<open>p\<close> is a timer of \<open>p\<close>.  In both, the armed timers of
  \<open>p\<close> are among these two.
\<close>

definition ack_timer :: "PendingMessage \<Rightarrow> nat \<Rightarrow> timer" where
  "ack_timer p da = \<lparr> timer_id = ackTimer p, deadline = da, callback = AckTimeout p \<rparr>"

definition reply_timer :: "PendingMessage \<Rightarrow> nat \<Rightarrow> timer" where
  "reply_timer p dr = \<lparr> timer_id = replyTimer p, deadline = dr, callback = ReplyTimeout p \<rparr>"

definition own_timers :: "PendingMessage \<Rightarrow> nat \<Rightarrow> nat \<Rightarrow> state \<Rightarrow> bool" where
  "own_timers p da dr s =
     (\<forall>t \<in> set (timers s). pending_of (callback t) = p \<longrightarrow> t = ack_timer p da \<or> t = reply_timer p dr)"

definition awaits_ack :: "PendingMessage \<Rightarrow> nat \<Rightarrow> nat \<Rightarrow> state \<Rightarrow> bool" where
  "awaits_ack p da dr s =
     (inv s \<and> promises s (promise p) = Some Pending \<and> ack_timer p da \<in> set (timers s) \<and>
      own_timers p da dr s)"

definition awaits_reply :: "PendingMessage \<Rightarrow> nat \<Rightarrow> nat \<Rightarrow> state \<Rightarrow> bool" where
  "awaits_reply p da dr s =
     (inv s \<and> p \<in> set (queue s) \<and> reply_timer p dr \<in> set (timers s) \<and>
      (\<forall>t \<in> set (timers s). action (message (pending_of (callback t))) = action (message p) \<longrightarrow>
          pending_of (callback t) = p) \<and>
      own_timers p da dr s)"

section \<open>The deep-link format in the words of the specification\<close>

text \<open>
  The specification describes the deep link as the base, \<^verbatim>\<open>?action="<base-action>"\<close>, and for
  each present optional field \<^verbatim>\<open>&<field>="<value>"\<close> with every value percent-encoded and
  wrapped in quote characters.  This is that description, to be compared with \<open>toString\<close>;
  the value of the headers is their JSON text and the value of a number its digits.
\<close>

definition spec_param :: "string \<Rightarrow> string option \<Rightarrow> string" where
  "spec_param name v =
     (case v of None \<Rightarrow> [] | Some x \<Rightarrow> quoted_param name (encodeURIComponent x))"

definition spec_toString :: "string \<Rightarrow> IntentUrl \<Rightarrow> string" where
  \<open>spec_toString base u =
     base @ ''?action="'' @ (case iu_action u of None \<Rightarrow> ''undefined'' | Some a \<Rightarrow> a) @ ''"''
       @ spec_param ''getAuthChallengeUrl'' (iu_getAuthChallengeUrl u)
       @ spec_param ''postAuthTokenUrl'' (iu_postAuthTokenUrl u)
       @ spec_param ''postPrepareSigningUrl'' (iu_postPrepareSigningUrl u)
       @ spec_param ''postFinalizeSigningUrl'' (iu_postFinalizeSigningUrl u)
       @ spec_param ''applicationName'' (iu_applicationName u)
       @ spec_param ''actionDescription'' (iu_actionDescription u)
       @ spec_param ''headers'' (map_option JSON_stringify (iu_headers u))
       @ spec_param ''userInteractionTimeout'' (map_option number_toString (iu_userInteractionTimeout u))
       @ spec_param ''serverRequestTimeout'' (map_option number_toString (iu_serverRequestTimeout u))
       @ spec_param ''lang'' (iu_lang u)\<close>

section \<open>Sample inputs\<close>

text \<open>
  A page in a secure context on a desktop browser, with a handshake timeout of one second,
  running the copy of the service in \<^verbatim>\<open>part_000\<close> (its URL parser splits an \<^verbatim>\<open>https\<close> URL
  without port at the first slash after the host); and an authentication request for the
  mobile flow.
\<close>

definition desktop :: env where
  "desktop =
     \<lparr> EXTENSION_HANDSHAKE_TIMEOUT = 1000,
       AUTH_APP_INTENT_URL_BASE = ''web-eid-mobile://auth'',
       isSecureContext = True,
       isAndroidDevice = False,
       deserializeError = (\<lambda>x. x),
       parse_url = (\<lambda>u. Some (takeWhile (\<lambda>c. c \<noteq> CHR ''/'') (drop 8 u), [],
                              dropWhile (\<lambda>c. c \<noteq> CHR ''/'') (drop 8 u))),
       qr_svg = (\<lambda>t. Some ''<svg/>''),
       has_canvas = True,
       revision = Part_000 \<rparr>"

definition auth_request :: Message where
  "auth_request =
     (action_only AUTHENTICATE)
       \<lparr> useAuthApp := Some True,
         getAuthSuccessUrl := Some ''https://rp.example/s'',
         getAuthChallengeUrl := Some ''https://rp.example/c'',
         postAuthTokenUrl := Some ''https://rp.example/t'' \<rparr>"

text \<open>
  A request for the card reader (no \<^verbatim>\<open>useAuthApp\<close>), and a run in which the same action is sent
  twice: the first request is answered with \<^verbatim>\<open>-success\<close> before any \<^verbatim>\<open>-ack\<close>, the second is
  acknowledged, and then the handshake timeout of the first request elapses.
\<close>

definition card_request :: Message where
  "card_request = action_only AUTHENTICATE"

definition stale_ack_trace :: "event list" where
  "stale_ack_trace =
     [Send card_request 30000, Elapse 100, Receive (action_only AUTHENTICATE_SUCCESS),
      Elapse 100, Send card_request 30000, Elapse 100, Receive (action_only AUTHENTICATE_ACK),
      Elapse 700]"

section \<open>Properties\<close>

lemma getInitialAction_no_suffix:
  "\<not> suffix ''-success'' s \<Longrightarrow> \<not> suffix ''-failure'' s \<Longrightarrow> \<not> suffix ''-ack'' s \<Longrightarrow>
   getInitialAction s = s"
proof (induction s)
  case Nil
  show ?case by simp
next
  case (Cons c cs)
  have a: "c # cs \<noteq> ''-success''" "c # cs \<noteq> ''-failure''" "c # cs \<noteq> ''-ack''"
    using Cons.prems by (auto simp del: list.inject)
  have b: "\<not> suffix ''-success'' cs" "\<not> suffix ''-failure'' cs" "\<not> suffix ''-ack'' cs"
    using Cons.prems by (auto simp: suffix_Cons simp del: list.inject)
  from a b Cons.IH show ?case by simp
qed

lemma longer_not_alternative:
  assumes "t = ''-success'' \<or> t = ''-failure'' \<or> t = ''-ack''"
  shows "c # s @ t \<noteq> ''-success'' \<and> c # s @ t \<noteq> ''-failure'' \<and> c # s @ t \<noteq> ''-ack''"
proof -
  have len: "length (c # s @ t) > length t" by simp
  have suf: "suffix t (c # s @ t)" by (metis append_Cons suffixI)
  have n1: "\<not> suffix ''-ack'' ''-success''" "\<not> suffix ''-ack'' ''-failure''"
    by (simp_all add: suffix_def append_eq_Cons_conv)
  show ?thesis
    using assms len suf n1 by (auto simp del: list.inject append.simps)
qed

lemma getInitialAction_append:
  assumes "t = ''-success'' \<or> t = ''-failure'' \<or> t = ''-ack''"
  shows "getInitialAction (s @ t) = s"
proof (induction s)
  case Nil
  from assms show ?case by auto
next
  case (Cons c s)
  from longer_not_alternative[OF assms, of c s] Cons.IH show ?case by simp
qed


text \<open>
  Claim C10.  For every string \<open>s\<close> and every suffix \<open>t\<close> among \<^verbatim>\<open>-ack\<close>, \<^verbatim>\<open>-success\<close>,
  \<^verbatim>\<open>-failure\<close>, \<open>getInitialAction (s @ t) = s\<close>; a string that ends in none of the three is
  returned unchanged.  Hence each of the four textual variants of an action is mapped to
  its base action.
\<close>

theorem getInitialAction_roundtrip:
  "(t = ''-ack'' \<or> t = ''-success'' \<or> t = ''-failure'' \<longrightarrow> getInitialAction (s @ t) = s) \<and>
   (\<not> suffix ''-ack'' s \<and> \<not> suffix ''-success'' s \<and> \<not> suffix ''-failure'' s \<longrightarrow>
      getInitialAction s = s)"
  using getInitialAction_append [of t s] getInitialAction_no_suffix [of s] by blast

theorem getInitialAction_roundtrip_witness:
  "\<not> suffix ''-ack'' AUTHENTICATE \<and> \<not> suffix ''-success'' AUTHENTICATE \<and>
   \<not> suffix ''-failure'' AUTHENTICATE \<and>
   getInitialAction AUTHENTICATE = AUTHENTICATE \<and>
   getInitialAction (AUTHENTICATE @ ''-ack'') = AUTHENTICATE \<and>
   getInitialAction (AUTHENTICATE @ ''-success'') = AUTHENTICATE \<and>
   getInitialAction (AUTHENTICATE @ ''-failure'') = AUTHENTICATE"
proof -
  have h: "\<not> suffix ''-ack'' AUTHENTICATE \<and> \<not> suffix ''-success'' AUTHENTICATE \<and>
           \<not> suffix ''-failure'' AUTHENTICATE"
    by (simp add: AUTHENTICATE_def suffix_def append_eq_Cons_conv)
  show ?thesis
    using h getInitialAction_roundtrip [of "''-ack''" AUTHENTICATE]
      getInitialAction_roundtrip [of "''-success''" AUTHENTICATE]
      getInitialAction_roundtrip [of "''-failure''" AUTHENTICATE]
    by blast
qed

subsection \<open>The invariant holds in every reachable state\<close>

lemma inv_init: "inv init"
  by (simp add: inv_def inv_known_def inv_timers_def init_def known_def)

lemma clearTimeout_fields [simp]:
  "queue (clearTimeout i s) = queue s"
  "promises (clearTimeout i s) = promises s"
  "next_promise (clearTimeout i s) = next_promise s"
  "next_timer (clearTimeout i s) = next_timer s"
  "timers (clearTimeout i s) = filter (\<lambda>t. timer_id t \<noteq> i) (timers s)"
  by (simp_all add: clearTimeout_def)

lemma settle_fields [simp]:
  "queue (settle pid v s) = queue s"
  "timers (settle pid v s) = timers s"
  "next_promise (settle pid v s) = next_promise s"
  "next_timer (settle pid v s) = next_timer s"
  by (simp_all add: settle_def split: option.splits settlement.splits)

lemma settle_promises:
  "promises (settle pid v s) =
     (if promises s pid = Some Pending then (promises s)(pid \<mapsto> v) else promises s)"
  by (simp add: settle_def split: option.splits settlement.splits)

lemma getPendingMessage_fields [simp]:
  "getPendingMessage a (clearTimeout i s) = getPendingMessage a s"
  "getPendingMessage a (settle pid v s) = getPendingMessage a s"
  by (simp_all add: getPendingMessage_def)

lemma removeFromQueue_fields [simp]:
  "queue (removeFromQueue a s) = filter (\<lambda>p. action (message p) \<noteq> a) (queue s)"
  "promises (removeFromQueue a s) = promises s"
  "next_promise (removeFromQueue a s) = next_promise s"
  "next_timer (removeFromQueue a s) = next_timer s"
  by (simp_all add: removeFromQueue_def Let_def split: option.splits)

lemma removeFromQueue_timers:
  "timers (removeFromQueue a s) =
     (case getPendingMessage a s of
        None \<Rightarrow> timers s
      | Some p \<Rightarrow> filter (\<lambda>t. timer_id t \<noteq> replyTimer p) (timers s))"
  by (simp add: removeFromQueue_def Let_def split: option.splits)

lemma removeFromQueue_timers_subset:
  "set (timers (removeFromQueue a s)) \<subseteq> set (timers s)"
  by (auto simp: removeFromQueue_timers split: option.splits)

text \<open>A state whose registry, timers and promises shrink (or settle) keeps the invariant.\<close>

lemma inv_known_shrink:
  assumes "inv_known s" and "known s' \<subseteq> known s"
    and "next_promise s' = next_promise s" and "next_timer s' = next_timer s"
  shows "inv_known s'"
proof -
  have a: "\<forall>p \<in> known s'. \<forall>q \<in> known s'. promise p = promise q \<longrightarrow> p = q"
    using assms(1,2) unfolding inv_known_def by blast
  have b: "\<forall>p \<in> known s'. promise p < next_promise s' \<and> ackTimer p < replyTimer p \<and>
          replyTimer p < next_timer s'"
    using assms unfolding inv_known_def by (simp add: subset_iff)
  have c: "\<forall>p \<in> known s'. \<forall>q \<in> known s'. p \<noteq> q \<longrightarrow>
          ackTimer p \<noteq> ackTimer q \<and> ackTimer p \<noteq> replyTimer q \<and> replyTimer p \<noteq> replyTimer q"
    using assms(1,2) unfolding inv_known_def by blast
  from a b c show ?thesis unfolding inv_known_def by blast
qed

lemma inv_timers_shrink:
  assumes "inv_timers s" and "set (timers s') \<subseteq> set (timers s)"
    and "next_timer s' = next_timer s"
  shows "inv_timers s'"
  using assms unfolding inv_timers_def by auto

lemma inv_shrink:
  assumes "inv s"
    and "set (queue s') \<subseteq> set (queue s)"
    and "distinct (map (\<lambda>p. action (message p)) (queue s'))"
    and "set (timers s') \<subseteq> set (timers s)"
    and "next_promise s' = next_promise s" and "next_timer s' = next_timer s"
    and "\<forall>pid. promises s' pid \<noteq> None \<longrightarrow> promises s pid \<noteq> None"
    and "\<forall>p \<in> set (queue s'). promises s' (promise p) = Some Pending"
  shows "inv s'"
proof -
  have k: "known s' \<subseteq> known s"
    using assms(2,4) by (auto simp: known_def)
  have a: "\<forall>pid. promises s' pid \<noteq> None \<longrightarrow> pid < next_promise s'"
    using assms(1,5,7) unfolding inv_def by simp
  have b: "inv_known s'"
    using assms(1) k assms(5,6) unfolding inv_def by (blast intro: inv_known_shrink)
  have c: "inv_timers s'"
    using assms(1,4,6) unfolding inv_def by (blast intro: inv_timers_shrink)
  show ?thesis
    unfolding inv_def using assms(3,8) a b c by blast
qed

lemma distinct_filter_actions:
  "distinct (map (\<lambda>p. action (message p)) xs) \<Longrightarrow>
   distinct (map (\<lambda>p. action (message p)) (filter P xs))"
  by (simp add: distinct_map_filter)

lemma inv_clearTimeout: "inv s \<Longrightarrow> inv (clearTimeout i s)"
  by (rule inv_shrink [of s]) (auto simp: inv_def)

lemma inv_removeFromQueue: "inv s \<Longrightarrow> inv (removeFromQueue a s)"
  by (rule inv_shrink [of s])
     (auto simp: inv_def distinct_filter_actions removeFromQueue_timers split: option.splits)

lemma inv_settle_remove:
  assumes "inv s"
    and "\<forall>q \<in> set (queue s). promise q = promise p \<longrightarrow> action (message q) = action (message p)"
  shows "inv (removeFromQueue (action (message p)) (settle (promise p) v s))"
proof (rule inv_shrink [of s])
  show "inv s" by fact
  show "\<forall>q \<in> set (queue (removeFromQueue (action (message p)) (settle (promise p) v s))).
          promises (removeFromQueue (action (message p)) (settle (promise p) v s)) (promise q)
            = Some Pending"
    using assms by (auto simp: inv_def settle_promises)
qed (use assms in \<open>auto simp: inv_def distinct_filter_actions removeFromQueue_timers
       settle_promises split: option.splits if_splits\<close>)

lemma inv_frame [simp]:
  "inv (s\<lparr>now := n\<rparr>) = inv s"
  "inv (s\<lparr>inbox := i\<rparr>) = inv s"
  "inv (s\<lparr>requests := r\<rparr>) = inv s"
  "inv (s\<lparr>effects := f\<rparr>) = inv s"
  by (simp_all add: inv_def inv_known_def inv_timers_def known_def)

lemma same_promise_same_action:
  assumes "inv s" and "p \<in> known s"
  shows "\<forall>q \<in> set (queue s). promise q = promise p \<longrightarrow> action (message q) = action (message p)"
proof -
  have "\<forall>q \<in> set (queue s). q \<in> known s" by (simp add: known_def)
  with assms show ?thesis unfolding inv_def inv_known_def by metis
qed

lemma inv_onReplyTimeout:
  assumes "inv s"
    and "\<forall>q \<in> set (queue s). promise q = promise p \<longrightarrow> action (message q) = action (message p)"
  shows "inv (onReplyTimeout p s)"
  unfolding onReplyTimeout_def using assms by (rule inv_settle_remove)

lemma inv_onAckTimeout:
  assumes "inv s"
    and "\<forall>q \<in> set (queue s). promise q = promise p \<longrightarrow> action (message q) = action (message p)"
  shows "inv (onAckTimeout p s)"
  unfolding onAckTimeout_def Let_def
  using assms by (auto intro!: inv_clearTimeout inv_settle_remove)

lemma inv_fire:
  assumes "inv s" and "t \<in> set (timers s)"
  shows "inv (fire t s)"
proof -
  let ?s1 = "s\<lparr>timers := filter (\<lambda>u. timer_id u \<noteq> timer_id t) (timers s),
               now := max (now s) (deadline t)\<rparr>"
  have p: "pending_of (callback t) \<in> known s"
    using assms(2) by (auto simp: known_def)
  have same: "\<forall>q \<in> set (queue ?s1). promise q = promise (pending_of (callback t)) \<longrightarrow>
                action (message q) = action (message (pending_of (callback t)))"
    using same_promise_same_action [OF assms(1) p] by simp
  have "inv (s\<lparr>timers := filter (\<lambda>u. timer_id u \<noteq> timer_id t) (timers s)\<rparr>)"
    by (rule inv_shrink [OF assms(1)]) (use assms(1) in \<open>auto simp: inv_def\<close>)
  then have i1: "inv ?s1" by simp
  show ?thesis
  proof (cases "callback t")
    case (AckTimeout p)
    with same i1 show ?thesis
      by (simp add: fire_def Let_def inv_onAckTimeout)
  next
    case (ReplyTimeout p)
    with same i1 show ?thesis
      by (simp add: fire_def Let_def inv_onReplyTimeout)
  qed
qed

lemma inv_fold_fire: "inv s \<Longrightarrow> inv (foldl fire_if_armed s ts)"
  by (induction ts arbitrary: s) (simp_all add: fire_if_armed_def inv_fire)

lemma inv_elapse: "inv s \<Longrightarrow> inv (elapse d s)"
  by (simp add: elapse_def Let_def inv_fold_fire)

lemma getPendingMessage_Some:
  "getPendingMessage a s = Some p \<Longrightarrow> p \<in> set (queue s) \<and> action (message p) = a"
  by (auto simp: getPendingMessage_def find_Some_iff)

lemma inv_receive: "inv s \<Longrightarrow> inv (receive e m s)"
proof -
  assume i: "inv s"
  show ?thesis
  proof (cases "getPendingMessage (getInitialAction (action m)) s")
    case None
    with i show ?thesis by (simp add: receive_def Let_def)
  next
    case (Some p)
    then have p: "p \<in> set (queue s)" and a: "action (message p) = getInitialAction (action m)"
      using getPendingMessage_Some by blast+
    from p have "p \<in> known s" by (simp add: known_def)
    from same_promise_same_action [OF i this]
    have "inv (removeFromQueue (action (message p)) (settle (promise p) v s))" for v
      using i by (rule inv_settle_remove [rotated])
    with i Some a show ?thesis
      by (simp add: receive_def Let_def inv_clearTimeout)
  qed
qed

lemma inv_postMessage [simp]: "inv (postMessage m s) = inv s"
  by (simp add: postMessage_def)

lemma inv_publishMessage: "inv (snd (publishMessage e m timeout s)) = inv s"
  by (auto simp: publishMessage_def launchAuthApp_def displayQRCode_def
      split: sum.splits option.splits prod.splits if_splits)

lemma getPendingMessage_None:
  "getPendingMessage a s = None \<longleftrightarrow> a \<notin> (\<lambda>p. action (message p)) ` set (queue s)"
  by (auto simp: getPendingMessage_def find_None_iff)

lemma inv_known_insert:
  assumes "inv_known s" and k: "known s' = insert p (known s)"
    and pp: "promise p = next_promise s"
    and pa: "ackTimer p = next_timer s" and pr: "replyTimer p = next_timer s + 1"
    and np: "next_promise s' = next_promise s + 1" and nt: "next_timer s' = next_timer s + 2"
  shows "inv_known s'"
proof -
  have old: "\<forall>q \<in> known s. promise q < next_promise s \<and> ackTimer q < replyTimer q \<and>
          replyTimer q < next_timer s"
    using assms(1) unfolding inv_known_def by blast
  have old1: "\<forall>x \<in> known s. \<forall>y \<in> known s. promise x = promise y \<longrightarrow> x = y"
    using assms(1) unfolding inv_known_def by blast
  have old2: "\<forall>x \<in> known s. \<forall>y \<in> known s. x \<noteq> y \<longrightarrow>
          ackTimer x \<noteq> ackTimer y \<and> ackTimer x \<noteq> replyTimer y \<and> replyTimer x \<noteq> replyTimer y"
    using assms(1) unfolding inv_known_def by blast
  have a: "\<forall>x \<in> known s'. \<forall>y \<in> known s'. promise x = promise y \<longrightarrow> x = y"
  proof (intro ballI impI)
    fix x y assume "x \<in> known s'" "y \<in> known s'" and e: "promise x = promise y"
    then consider "x = p" "y = p" | "x = p" "y \<in> known s" | "x \<in> known s" "y = p"
      | "x \<in> known s" "y \<in> known s"
      unfolding k by blast
    then show "x = y"
    proof cases
      case 1 then show ?thesis by simp
    next
      case 2 with old e pp show ?thesis by fastforce
    next
      case 3 with old e pp show ?thesis by fastforce
    next
      case 4 with old1 e show ?thesis by blast
    qed
  qed
  have b: "\<forall>x \<in> known s'. promise x < next_promise s' \<and> ackTimer x < replyTimer x \<and>
          replyTimer x < next_timer s'"
  proof
    fix x assume "x \<in> known s'"
    then consider "x = p" | "x \<in> known s" unfolding k by blast
    then show "promise x < next_promise s' \<and> ackTimer x < replyTimer x \<and>
          replyTimer x < next_timer s'"
    proof cases
      case 1 then show ?thesis by (simp add: pp pa pr np nt)
    next
      case 2 with old have "promise x < next_promise s \<and> ackTimer x < replyTimer x \<and>
          replyTimer x < next_timer s" by blast
      then show ?thesis by (simp add: np nt)
    qed
  qed
  have c: "\<forall>x \<in> known s'. \<forall>y \<in> known s'. x \<noteq> y \<longrightarrow>
          ackTimer x \<noteq> ackTimer y \<and> ackTimer x \<noteq> replyTimer y \<and> replyTimer x \<noteq> replyTimer y"
  proof (intro ballI impI)
    fix x y assume "x \<in> known s'" "y \<in> known s'" and ne: "x \<noteq> y"
    then consider "x = p" "y \<in> known s" | "x \<in> known s" "y = p"
      | "x \<in> known s" "y \<in> known s"
      unfolding k by blast
    then show "ackTimer x \<noteq> ackTimer y \<and> ackTimer x \<noteq> replyTimer y \<and> replyTimer x \<noteq> replyTimer y"
    proof cases
      case 1
      with old have "ackTimer y < replyTimer y \<and> replyTimer y < next_timer s" by blast
      with 1 show ?thesis by (simp add: pa pr)
    next
      case 2
      with old have "ackTimer x < replyTimer x \<and> replyTimer x < next_timer s" by blast
      with 2 show ?thesis by (simp add: pa pr)
    next
      case 3 with old2 ne show ?thesis by blast
    qed
  qed
  from a b c show ?thesis unfolding inv_known_def by blast
qed

lemma inv_register:
  assumes "inv s" and "getPendingMessage (action m) s = None"
  shows "inv (s\<lparr> queue := queue s @ [\<lparr> message = m, promise = next_promise s,
                        ackTimer = next_timer s, replyTimer = next_timer s + 1 \<rparr>],
                 promises := (promises s)(next_promise s \<mapsto> Pending),
                 next_promise := next_promise s + 1,
                 timers := timers s @
                   [\<lparr> timer_id = next_timer s, deadline = d1,
                      callback = AckTimeout \<lparr> message = m, promise = next_promise s,
                        ackTimer = next_timer s, replyTimer = next_timer s + 1 \<rparr> \<rparr>,
                    \<lparr> timer_id = next_timer s + 1, deadline = d2,
                      callback = ReplyTimeout \<lparr> message = m, promise = next_promise s,
                        ackTimer = next_timer s, replyTimer = next_timer s + 1 \<rparr> \<rparr>],
                 next_timer := next_timer s + 2 \<rparr>)"
    (is "inv ?s'")
proof -
  let ?p = "\<lparr> message = m, promise = next_promise s,
                        ackTimer = next_timer s, replyTimer = next_timer s + 1 \<rparr>"
  have k: "known ?s' = insert ?p (known s)"
    by (auto simp: known_def)
  have old: "\<forall>q \<in> known s. promise q < next_promise s"
    using assms(1) unfolding inv_def inv_known_def by blast
  have a: "distinct (map (\<lambda>p. action (message p)) (queue ?s'))"
    using assms unfolding inv_def by (auto simp: getPendingMessage_None)
  have qk: "\<forall>q \<in> set (queue s). q \<in> known s" by (simp add: known_def)
  have b: "\<forall>p \<in> set (queue ?s'). promises ?s' (promise p) = Some Pending"
    using assms(1) old qk unfolding inv_def by auto
  have c: "\<forall>pid. promises ?s' pid \<noteq> None \<longrightarrow> pid < next_promise ?s'"
    using assms(1) unfolding inv_def by (auto simp: less_Suc_eq)
  have d: "inv_known ?s'"
    by (rule inv_known_insert [where s = s and p = ?p]) (use assms(1) k in \<open>simp_all add: inv_def\<close>)
  have f: "inv_timers ?s'"
    using assms(1) unfolding inv_def inv_timers_def by auto
  show ?thesis
    unfolding inv_def using a b c d f by blast
qed

lemma inv_send: "inv s \<Longrightarrow> inv (snd (send e m timeout s))"
proof -
  assume i: "inv s"
  show ?thesis
  proof (cases "getPendingMessage (action m) s = None \<and> isSecureContext e")
    case False
    with i show ?thesis by (auto simp: send_def)
  next
    case True
    then have n: "getPendingMessage (action m) s = None" by simp
    from inv_register [OF i n]
    show ?thesis
      using True
      by (simp add: send_def Let_def split: prod.splits option.splits)
         (metis inv_publishMessage snd_conv)
  qed
qed

lemma inv_step: "inv s \<Longrightarrow> inv (step e s ev)"
proof (cases ev)
  case (Send m timeout)
  assume "inv s"
  with Send show ?thesis by (simp add: step_def inv_send)
next
  case (Receive m)
  assume "inv s"
  with Receive show ?thesis by (simp add: step_def inv_receive)
next
  case Deliver
  assume "inv s"
  with Deliver show ?thesis
    by (cases "inbox s") (simp_all add: step_def inv_receive)
next
  case (Elapse d)
  assume "inv s"
  with Elapse show ?thesis by (simp add: step_def inv_elapse)
next
  case (PollResponse i status)
  assume "inv s"
  with PollResponse show ?thesis
    by (simp add: step_def Let_def on_response_def on_response_services_def
        displayRelevantError_def inv_removeFromQueue split: revision.splits)
next
  case (PollError i)
  assume "inv s"
  with PollError show ?thesis
    by (simp add: step_def Let_def on_error_def on_error_services_def
        inv_removeFromQueue split: revision.splits)
qed

lemma inv_run: "inv s \<Longrightarrow> inv (run e evs s)"
  unfolding run_def by (induction evs arbitrary: s) (simp_all add: inv_step)

lemma inv_reachable: "inv (run e evs init)"
  by (rule inv_run) (rule inv_init)

lemma run_append: "run e (evs @ evs') s = run e evs' (run e evs s)"
  by (simp add: run_def)

lemma registered_unsettled:
  "inv s \<Longrightarrow> p \<in> set (queue s) \<Longrightarrow> promises s (promise p) = Some Pending"
  by (simp add: inv_def)

lemma registered_found:
  assumes "inv s" and "p \<in> set (queue s)"
  shows "getPendingMessage (action (message p)) s = Some p"
proof -
  from assms(2) obtain q where q: "getPendingMessage (action (message p)) s = Some q"
    by (cases "getPendingMessage (action (message p)) s") (auto simp: getPendingMessage_None)
  then have "q \<in> set (queue s)" "action (message q) = action (message p)"
    using getPendingMessage_Some by blast+
  with assms have "q = p"
    unfolding inv_def by (metis (mono_tags, lifting) distinct_map inj_onD)
  with q show ?thesis by simp
qed

lemma removed_not_found [simp]: "getPendingMessage a (removeFromQueue a s) = None"
  by (auto simp: getPendingMessage_None)

lemma match_suffix_ack: "match_suffix (x @ ''-ack'') = Some ''ack''"
proof (induction x)
  case Nil
  show ?case by simp
next
  case (Cons c x)
  have "suffix ''-ack'' (c # x @ ''-ack'')" by (metis append_Cons suffixI)
  moreover have "\<not> suffix ''-ack'' ''success''" "\<not> suffix ''-ack'' ''failure''"
    "\<not> suffix ''-ack'' ''ack''"
    by (simp_all add: suffix_def append_eq_Cons_conv)
  ultimately have "c # x @ ''-ack'' \<noteq> ''success'' \<and> c # x @ ''-ack'' \<noteq> ''failure'' \<and>
      c # x @ ''-ack'' \<noteq> ''ack''"
    by (auto simp del: list.inject append.simps)
  with Cons.IH show ?case by simp
qed

subsection \<open>Evaluation\<close>

lemmas intent_url_defs =
  new_IntentUrl_def validate_def IntentUrl_assign_def copy_string_def copy_number_def
  truthy_string_def truthy_number_def

lemmas to_string_defs =
  toString_def encoded_param_def raw_param_def number_param_def headers_param_def
  quoted_param_def encodeURIComponent_def uri_unreserved_def percent_byte_def
  JSON_stringify_def json_quote_def json_escape_def number_toString_def

lemmas service_defs =
  run_def step_def send_def publishMessage_def launchAuthApp_def displayQRCode_def
  pollForLoginSuccess_def postMessage_def receive_def removeFromQueue_def getPendingMessage_def
  settle_def clearTimeout_def onAckTimeout_def onReplyTimeout_def fire_def fire_if_armed_def
  elapse_def on_response_def on_error_def on_response_services_def on_error_services_def
  displayRelevantError_def status_error_def getRelevantAckAction_def
  getRelevantSuccessAction_def getRelevantErrorAction_def timer_delay_def

lemmas action_defs =
  AUTHENTICATE_def AUTHENTICATE_ACK_def AUTHENTICATE_SUCCESS_def AUTHENTICATE_FAILURE_def
  SIGN_def SIGN_ACK_def SIGN_SUCCESS_def SIGN_FAILURE_def
  STATUS_def STATUS_ACK_def STATUS_SUCCESS_def STATUS_FAILURE_def

lemmas sample_defs =
  desktop_def auth_request_def card_request_def action_only_def init_def stale_ack_trace_def

subsection \<open>Futures and timer handles only move forward\<close>

lemma advances_refl [simp]: "advances s s"
  by (simp add: advances_def)

lemma advances_trans: "advances s s' \<Longrightarrow> advances s' s'' \<Longrightarrow> advances s s''"
  unfolding advances_def
  by (metis (no_types, lifting) le_trans less_le_trans)

lemma advances_frame [simp]:
  "advances s (s'\<lparr>now := n\<rparr>) = advances s s'"
  "advances s (s'\<lparr>inbox := i\<rparr>) = advances s s'"
  "advances s (s'\<lparr>requests := r\<rparr>) = advances s s'"
  "advances s (s'\<lparr>effects := f\<rparr>) = advances s s'"
  by (simp_all add: advances_def)

lemma advances_clearTimeout: "advances s (clearTimeout i s)"
  by (auto simp: advances_def)

lemma advances_settle: "advances s (settle pid v s)"
  by (auto simp: advances_def settle_promises)

lemma advances_removeFromQueue: "advances s (removeFromQueue a s)"
  by (auto simp: advances_def removeFromQueue_timers split: option.splits)

lemma advances_onReplyTimeout: "advances s (onReplyTimeout p s)"
  unfolding onReplyTimeout_def
  by (rule advances_trans [OF advances_settle advances_removeFromQueue])

lemma advances_settle_remove_clear:
  "advances s (clearTimeout i (removeFromQueue a (settle pid v s)))"
  by (rule advances_trans [OF advances_settle
        advances_trans [OF advances_removeFromQueue advances_clearTimeout]])

lemma advances_onAckTimeout: "advances s (onAckTimeout p s)"
  unfolding onAckTimeout_def Let_def
  by (simp add: advances_settle_remove_clear)

lemma advances_disarm:
  "advances s (s\<lparr>timers := filter P (timers s), now := n\<rparr>)"
  by (auto simp: advances_def)

lemma advances_fire: "advances s (fire t s)"
  unfolding fire_def Let_def
  by (cases "callback t")
     (auto intro: advances_trans [OF advances_disarm] advances_onAckTimeout
        advances_onReplyTimeout)

lemma advances_fold_fire: "advances s (foldl fire_if_armed s ts)"
proof (induction ts arbitrary: s)
  case Nil
  show ?case by simp
next
  case (Cons t ts)
  have "advances s (fire_if_armed s t)"
    by (simp add: fire_if_armed_def advances_fire)
  from advances_trans [OF this Cons.IH] show ?case by simp
qed

lemma advances_elapse: "advances s (elapse d s)"
  by (simp add: elapse_def Let_def advances_fold_fire)

lemma advances_receive: "advances s (receive e m s)"
  unfolding receive_def Let_def
  by (auto split: option.splits
      intro: advances_clearTimeout advances_trans [OF advances_settle advances_removeFromQueue])

lemma advances_postMessage [simp]: "advances s (postMessage m s') = advances s s'"
  by (simp add: postMessage_def)

lemma advances_publishMessage:
  "advances s (snd (publishMessage e m timeout s')) = advances s s'"
  by (auto simp: publishMessage_def launchAuthApp_def displayQRCode_def
      split: sum.splits option.splits prod.splits if_splits)

lemma advances_send: "advances s (snd (send e m timeout s))"
proof (cases "getPendingMessage (action m) s = None \<and> isSecureContext e")
  case False
  then show ?thesis by (auto simp: send_def)
next
  case True
  have "advances s (s\<lparr> queue := q, promises := (promises s)(next_promise s \<mapsto> Pending),
          next_promise := next_promise s + 1,
          timers := timers s @ [\<lparr> timer_id = next_timer s, deadline = d1, callback = c1 \<rparr>,
                                \<lparr> timer_id = next_timer s + 1, deadline = d2, callback = c2 \<rparr>],
          next_timer := next_timer s + 2 \<rparr>)" for q d1 c1 d2 c2
    by (auto simp: advances_def)
  with True show ?thesis
    by (simp add: send_def Let_def split: prod.splits option.splits)
       (metis advances_publishMessage snd_conv)
qed

lemma advances_step: "advances s (step e s ev)"
proof (cases ev)
  case Deliver
  have "advances s (s\<lparr>inbox := ms\<rparr>)" for ms by simp
  from advances_trans [OF this advances_receive] Deliver show ?thesis
    by (cases "inbox s") (simp_all add: step_def)
next
  case (PollResponse i status)
  have "advances s (s\<lparr>requests := r, effects := f\<rparr>)" for r f by simp
  from advances_trans [OF this advances_removeFromQueue] PollResponse show ?thesis
    by (simp add: step_def Let_def on_response_def on_response_services_def
        displayRelevantError_def split: revision.splits)
next
  case (PollError i)
  have "advances s (s\<lparr>requests := r\<rparr>)" for r by simp
  from advances_trans [OF this advances_removeFromQueue] PollError show ?thesis
    by (simp add: step_def Let_def on_error_def on_error_services_def split: revision.splits)
qed (simp_all add: step_def advances_send advances_receive advances_elapse)

lemma advances_run: "advances s (run e evs s)"
proof (induction evs arbitrary: s)
  case Nil
  show ?case by (simp add: run_def)
next
  case (Cons ev evs)
  from advances_trans [OF advances_step Cons.IH] show ?case by (simp add: run_def)
qed

subsection \<open>A request that nothing refers to any more stays unsettled\<close>

lemma known_frame [simp]:
  "known (s\<lparr>now := n\<rparr>) = known s"
  "known (s\<lparr>inbox := i\<rparr>) = known s"
  "known (s\<lparr>requests := r\<rparr>) = known s"
  "known (s\<lparr>effects := f\<rparr>) = known s"
  "known (s\<lparr>promises := ps\<rparr>) = known s"
  by (simp_all add: known_def)

lemma orphan_frame [simp]:
  "orphan pid (s\<lparr>now := n\<rparr>) = orphan pid s"
  "orphan pid (s\<lparr>inbox := i\<rparr>) = orphan pid s"
  "orphan pid (s\<lparr>requests := r\<rparr>) = orphan pid s"
  "orphan pid (s\<lparr>effects := f\<rparr>) = orphan pid s"
  by (simp_all add: orphan_def)

lemma orphan_shrink:
  assumes "orphan pid s"
    and "set (queue s') \<subseteq> set (queue s)" and "set (timers s') \<subseteq> set (timers s)"
    and "promises s' pid = promises s pid" and "next_promise s' = next_promise s"
  shows "orphan pid s'"
proof -
  have "known s' \<subseteq> known s"
    using assms(2,3) by (auto simp: known_def)
  with assms show ?thesis
    unfolding orphan_def by auto
qed

lemma orphan_clearTimeout: "orphan pid s \<Longrightarrow> orphan pid (clearTimeout i s)"
  by (rule orphan_shrink [of pid s]) auto

lemma orphan_removeFromQueue: "orphan pid s \<Longrightarrow> orphan pid (removeFromQueue a s)"
  by (rule orphan_shrink [of pid s]) (auto simp: removeFromQueue_timers split: option.splits)

lemma orphan_settle: "orphan pid s \<Longrightarrow> q \<noteq> pid \<Longrightarrow> orphan pid (settle q v s)"
  by (rule orphan_shrink [of pid s]) (auto simp: settle_promises)

lemma orphan_onReplyTimeout:
  "orphan pid s \<Longrightarrow> promise p \<noteq> pid \<Longrightarrow> orphan pid (onReplyTimeout p s)"
  by (simp add: onReplyTimeout_def orphan_removeFromQueue orphan_settle)

lemma orphan_onAckTimeout:
  "orphan pid s \<Longrightarrow> promise p \<noteq> pid \<Longrightarrow> orphan pid (onAckTimeout p s)"
  by (simp add: onAckTimeout_def Let_def orphan_clearTimeout orphan_removeFromQueue orphan_settle)

lemma orphan_fire:
  assumes "orphan pid s" and "t \<in> set (timers s)"
  shows "orphan pid (fire t s)"
proof -
  let ?s1 = "s\<lparr>timers := filter (\<lambda>u. timer_id u \<noteq> timer_id t) (timers s),
               now := max (now s) (deadline t)\<rparr>"
  have "pending_of (callback t) \<in> known s"
    using assms(2) by (auto simp: known_def)
  with assms(1) have ne: "promise (pending_of (callback t)) \<noteq> pid"
    unfolding orphan_def by blast
  have "orphan pid (s\<lparr>timers := filter (\<lambda>u. timer_id u \<noteq> timer_id t) (timers s)\<rparr>)"
    by (rule orphan_shrink [OF assms(1)]) auto
  then have o1: "orphan pid ?s1" by simp
  show ?thesis
  proof (cases "callback t")
    case (AckTimeout p)
    with ne o1 show ?thesis by (simp add: fire_def Let_def orphan_onAckTimeout)
  next
    case (ReplyTimeout p)
    with ne o1 show ?thesis by (simp add: fire_def Let_def orphan_onReplyTimeout)
  qed
qed

lemma orphan_fold_fire: "orphan pid s \<Longrightarrow> orphan pid (foldl fire_if_armed s ts)"
  by (induction ts arbitrary: s) (simp_all add: fire_if_armed_def orphan_fire)

lemma orphan_elapse: "orphan pid s \<Longrightarrow> orphan pid (elapse d s)"
  by (simp add: elapse_def Let_def orphan_fold_fire)

lemma orphan_receive:
  assumes "orphan pid s"
  shows "orphan pid (receive e m s)"
proof (cases "getPendingMessage (getInitialAction (action m)) s")
  case None
  with assms show ?thesis by (simp add: receive_def Let_def)
next
  case (Some p)
  then have "p \<in> known s"
    using getPendingMessage_Some by (auto simp: known_def)
  with assms have "promise p \<noteq> pid"
    unfolding orphan_def by blast
  with assms Some show ?thesis
    by (simp add: receive_def Let_def orphan_clearTimeout orphan_removeFromQueue orphan_settle)
qed

lemma orphan_postMessage [simp]: "orphan pid (postMessage m s) = orphan pid s"
  by (simp add: postMessage_def)

lemma orphan_publishMessage:
  "orphan pid (snd (publishMessage e m timeout s)) = orphan pid s"
  by (auto simp: publishMessage_def launchAuthApp_def displayQRCode_def
      split: sum.splits option.splits prod.splits if_splits)

lemma orphan_send:
  assumes "orphan pid s"
  shows "orphan pid (snd (send e m timeout s))"
proof (cases "getPendingMessage (action m) s = None \<and> isSecureContext e")
  case False
  with assms show ?thesis by (auto simp: send_def)
next
  case True
  have "orphan pid (s\<lparr> queue := queue s @ [p], promises := (promises s)(next_promise s \<mapsto> Pending),
          next_promise := next_promise s + 1,
          timers := timers s @ [\<lparr> timer_id = i1, deadline = d1, callback = AckTimeout p \<rparr>,
                                \<lparr> timer_id = i2, deadline = d2, callback = ReplyTimeout p \<rparr>],
          next_timer := n \<rparr>)" if "promise p = next_promise s" for p i1 d1 i2 d2 n
    using assms that by (auto simp: orphan_def known_def)
  with True show ?thesis
    by (simp add: send_def Let_def split: prod.splits option.splits)
       (metis orphan_publishMessage snd_conv PendingMessage.select_convs(2))
qed

lemma orphan_step: "orphan pid s \<Longrightarrow> orphan pid (step e s ev)"
proof (cases ev)
  case Deliver
  assume "orphan pid s"
  with Deliver show ?thesis
    by (cases "inbox s") (simp_all add: step_def orphan_receive)
next
  case (PollResponse i status)
  assume "orphan pid s"
  with PollResponse show ?thesis
    by (simp add: step_def Let_def on_response_def on_response_services_def
        displayRelevantError_def orphan_removeFromQueue split: revision.splits)
next
  case (PollError i)
  assume "orphan pid s"
  with PollError show ?thesis
    by (simp add: step_def Let_def on_error_def on_error_services_def
        orphan_removeFromQueue split: revision.splits)
qed (simp_all add: step_def orphan_send orphan_receive orphan_elapse)

lemma orphan_run: "orphan pid s \<Longrightarrow> orphan pid (run e evs s)"
  unfolding run_def by (induction evs arbitrary: s) (simp_all add: orphan_step)

lemma second_request_never_settles:
  "promises (run desktop (stale_ack_trace @ evs) init) 1 = Some Pending"
proof -
  have "orphan 1 (run desktop stale_ack_trace init)"
    by (simp add: orphan_def known_def service_defs action_defs sample_defs Let_def)
  from orphan_run [OF this] show ?thesis
    by (simp add: run_append orphan_def)
qed

subsection \<open>Single flight\<close>

text \<open>
  Claim C1.  When the registry holds a pending message for \<open>action m\<close>, \<open>send m timeout\<close>
  returns a promise rejected with \<^verbatim>\<open>ActionPendingError\<close> and the state, registry and timers
  included, is the one before the call; and in every reachable state the actions of the
  registered requests are pairwise different.
\<close>

theorem send_single_flight:
  "((\<exists>p \<in> set (queue s). action (message p) = action m) \<longrightarrow>
      send e m timeout s = (RejectedWith ActionPendingError, s)) \<and>
   distinct (map (\<lambda>p. action (message p)) (queue (run e evs init)))"
proof -
  have "inv (run e evs init)" by (rule inv_reachable)
  then have d: "distinct (map (\<lambda>p. action (message p)) (queue (run e evs init)))"
    by (simp add: inv_def)
  have "getPendingMessage (action m) s \<noteq> None"
    if "\<exists>p \<in> set (queue s). action (message p) = action m"
    using that by (auto simp: getPendingMessage_def find_None_iff)
  then have "(\<exists>p \<in> set (queue s). action (message p) = action m) \<longrightarrow>
      send e m timeout s = (RejectedWith ActionPendingError, s)"
    by (simp add: send_def)
  with d show ?thesis by blast
qed

theorem send_single_flight_witness:
  "\<lparr>message = card_request, promise = 0, ackTimer = 0, replyTimer = 1\<rparr>
     \<in> set (queue (run desktop [Send card_request 30000] init)) \<and>
   send desktop card_request 500 (run desktop [Send card_request 30000] init)
     = (RejectedWith ActionPendingError, run desktop [Send card_request 30000] init)"
proof -
  let ?p = "\<lparr>message = card_request, promise = 0, ackTimer = 0, replyTimer = 1\<rparr>"
  have h: "?p \<in> set (queue (run desktop [Send card_request 30000] init)) \<and>
           action (message ?p) = action card_request"
    by (simp add: service_defs sample_defs Let_def)
  show ?thesis
    using h send_single_flight
      [where m = card_request and s = "run desktop [Send card_request 30000] init"
         and e = desktop and timeout = 500 and evs = "[]"]
    by blast
qed

subsection \<open>Settlement\<close>

text \<open>
  A settled future keeps its settlement in every continuation of the run: the handlers
  that run later (a still-armed ack timer, a second \<^verbatim>\<open>-success\<close>) call \<^verbatim>\<open>resolve\<close> or \<^verbatim>\<open>reject\<close> on
  a settled promise, which changes nothing.  So no future makes two terminal transitions.
\<close>

lemma settlement_is_final:
  assumes "promises (run e evs init) pid = Some v" and "v \<noteq> Pending"
  shows "promises (run e (evs @ evs') init) pid = Some v"
proof -
  let ?s = "run e evs init"
  have "inv ?s" by (rule inv_reachable)
  with assms(1) have "pid < next_promise ?s" by (auto simp: inv_def)
  moreover have "advances ?s (run e (evs @ evs') init)"
    by (simp add: run_append advances_run)
  ultimately show ?thesis
    using assms unfolding advances_def by blast
qed

text \<open>
  Claim C2 says that every request created by \<open>send\<close> makes exactly one terminal transition.
  The code does not achieve this.  With a handshake timeout of one second: a request is sent
  and answered with \<^verbatim>\<open>-success\<close> after 100 ms, before any \<^verbatim>\<open>-ack\<close>, so its future is fulfilled and
  its entry removed while its ack timer stays armed (no removal path clears the ack timer).
  After 200 ms the same action is sent again, with a timeout of 30 seconds, and after 300 ms
  it is acknowledged.  After 1000 ms the ack timer of the first request fires: its
  \<^verbatim>\<open>removeFromQueue\<close> finds the entry of the second request under the same action, clears the
  reply timer of the second request and deletes its entry.  The second future is unsettled,
  has no entry in the registry and no armed timer, although \<open>send\<close> armed a reply timer for
  it as the backstop; by \<open>second_request_never_settles\<close> it stays unsettled whatever happens
  afterwards.
\<close>

theorem stale_ack_timer_strands_request:
  "promises (run desktop stale_ack_trace init) 0
     = Some (Fulfilled (action_only AUTHENTICATE_SUCCESS)) \<and>
   promises (run desktop stale_ack_trace init) 1 = Some Pending \<and>
   next_promise (run desktop stale_ack_trace init) = 2 \<and>
   queue (run desktop stale_ack_trace init) = [] \<and>
   timers (run desktop stale_ack_trace init) = [] \<and>
   now (run desktop stale_ack_trace init) = 1000"
  by (simp add: service_defs action_defs sample_defs Let_def)

subsection \<open>The clock\<close>

lemma now_fields [simp]:
  "now (clearTimeout i s) = now s"
  "now (settle pid v s) = now s"
  "now (removeFromQueue a s) = now s"
  "now (postMessage m s) = now s"
  by (simp_all add: clearTimeout_def settle_def removeFromQueue_def postMessage_def Let_def
      split: option.splits settlement.splits)

lemma now_receive [simp]: "now (receive e m s) = now s"
  by (simp add: receive_def Let_def split: option.splits)

lemma publishMessage_fields [simp]:
  "queue (snd (publishMessage e m t s)) = queue s"
  "promises (snd (publishMessage e m t s)) = promises s"
  "timers (snd (publishMessage e m t s)) = timers s"
  "next_promise (snd (publishMessage e m t s)) = next_promise s"
  "next_timer (snd (publishMessage e m t s)) = next_timer s"
  "now (snd (publishMessage e m t s)) = now s"
  by (auto simp: publishMessage_def launchAuthApp_def displayQRCode_def postMessage_def
      split: sum.splits option.splits prod.splits if_splits)

lemma now_send [simp]: "now (snd (send e m t s)) = now s"
proof -
  have "now (snd (case publishMessage e m t s1 of
                    (None, s2) \<Rightarrow> (Returned pid, s2) | (Some x, s2) \<Rightarrow> (Threw x, s2)))
          = now s1" for s1 pid
    using publishMessage_fields(6) [of e m t s1]
    by (cases "publishMessage e m t s1") (auto split: option.splits)
  then show ?thesis by (simp add: send_def Let_def)
qed

lemma now_elapse [simp]: "now (elapse d s) = now s + d"
  by (simp add: elapse_def Let_def)

lemma now_step: "now (step e s ev) = now s + elapsed [ev]"
  by (cases ev)
     (simp_all add: step_def Let_def on_response_def on_response_services_def on_error_def
        on_error_services_def displayRelevantError_def split: list.splits revision.splits)

lemma now_run: "now (run e evs s) = now s + elapsed evs"
proof (induction evs arbitrary: s)
  case Nil
  show ?case by (simp add: run_def)
next
  case (Cons ev evs)
  have "run e (ev # evs) s = run e evs (step e s ev)" by (simp add: run_def)
  then show ?case using Cons.IH [of "step e s ev"] now_step [of e s ev]
    by (cases ev) simp_all
qed


subsection \<open>What the operations do to the timers, the futures and the registry\<close>

lemma send_cases:
  "snd (send e m t s) = s \<or>
   (getPendingMessage (action m) s = None \<and>
    queue (snd (send e m t s)) = queue s @ [\<lparr> message = m, promise = next_promise s,
        ackTimer = next_timer s, replyTimer = next_timer s + 1 \<rparr>] \<and>
    promises (snd (send e m t s)) = (promises s)(next_promise s \<mapsto> Pending) \<and>
    timers (snd (send e m t s)) = timers s @
      [ack_timer \<lparr> message = m, promise = next_promise s,
          ackTimer = next_timer s, replyTimer = next_timer s + 1 \<rparr>
         (now s + timer_delay (EXTENSION_HANDSHAKE_TIMEOUT e)),
       reply_timer \<lparr> message = m, promise = next_promise s,
          ackTimer = next_timer s, replyTimer = next_timer s + 1 \<rparr>
         (now s + timer_delay t)])"
proof (cases "getPendingMessage (action m) s = None \<and> isSecureContext e")
  case False
  then show ?thesis by (auto simp: send_def)
next
  case True
  have "snd (case publishMessage e m t s1 of
                    (None, s2) \<Rightarrow> (Returned pid, s2) | (Some x, s2) \<Rightarrow> (Threw x, s2))
          = snd (publishMessage e m t s1)" for s1 pid
    by (cases "publishMessage e m t s1") (auto split: option.splits)
  with True show ?thesis
    by (simp add: send_def Let_def ack_timer_def reply_timer_def)
qed

lemma send_returned:
  assumes "send e m t s = (Returned pid, s1)"
  shows "pid = next_promise s \<and> getPendingMessage (action m) s = None \<and>
    queue s1 = queue s @ [\<lparr> message = m, promise = next_promise s,
        ackTimer = next_timer s, replyTimer = next_timer s + 1 \<rparr>] \<and>
    promises s1 = (promises s)(next_promise s \<mapsto> Pending) \<and>
    timers s1 = timers s @
      [ack_timer \<lparr> message = m, promise = next_promise s,
          ackTimer = next_timer s, replyTimer = next_timer s + 1 \<rparr>
         (now s + timer_delay (EXTENSION_HANDSHAKE_TIMEOUT e)),
       reply_timer \<lparr> message = m, promise = next_promise s,
          ackTimer = next_timer s, replyTimer = next_timer s + 1 \<rparr>
         (now s + timer_delay t)]"
proof -
  have n: "getPendingMessage (action m) s = None \<and> isSecureContext e"
    using assms by (auto simp: send_def split: if_splits)
  then have "pid = next_promise s"
    using assms by (auto simp: send_def Let_def split: prod.splits option.splits)
  moreover have "s1 = snd (send e m t s)" using assms by simp
  moreover have "snd (send e m t s) \<noteq> s"
  proof
    assume "snd (send e m t s) = s"
    then have "next_promise (snd (send e m t s)) = next_promise s" by simp
    moreover have "next_promise (snd (case publishMessage e m t s1 of
                    (None, s2) \<Rightarrow> (Returned pid, s2) | (Some x, s2) \<Rightarrow> (Threw x, s2)))
          = next_promise s1" for s1 pid
      using publishMessage_fields(4) [of e m t s1]
      by (cases "publishMessage e m t s1") (auto split: option.splits)
    ultimately show False using n by (simp add: send_def Let_def)
  qed
  ultimately show ?thesis using send_cases [of e m t s] n by auto
qed

lemma survives_clearTimeout:
  "t \<in> set (timers s) \<Longrightarrow> i \<noteq> timer_id t \<Longrightarrow> t \<in> set (timers (clearTimeout i s))"
  by auto

lemma survives_removeFromQueue:
  assumes "t \<in> set (timers s)"
    and "\<forall>q \<in> set (queue s). action (message q) = a \<longrightarrow> replyTimer q \<noteq> timer_id t"
  shows "t \<in> set (timers (removeFromQueue a s))"
proof (cases "getPendingMessage a s")
  case None
  with assms(1) show ?thesis by (simp add: removeFromQueue_timers)
next
  case (Some q)
  then have "q \<in> set (queue s) \<and> action (message q) = a" by (rule getPendingMessage_Some)
  with assms Some show ?thesis by (auto simp: removeFromQueue_timers)
qed

lemma survives_onReplyTimeout:
  assumes "t \<in> set (timers s)"
    and "\<forall>q' \<in> set (queue s). action (message q') = action (message q) \<longrightarrow>
           replyTimer q' \<noteq> timer_id t"
  shows "t \<in> set (timers (onReplyTimeout q s))"
  unfolding onReplyTimeout_def using assms by (intro survives_removeFromQueue) simp_all

lemma survives_onAckTimeout:
  assumes "t \<in> set (timers s)"
    and "\<forall>q' \<in> set (queue s). action (message q') = action (message q) \<longrightarrow>
           replyTimer q' \<noteq> timer_id t"
    and "replyTimer q \<noteq> timer_id t"
  shows "t \<in> set (timers (onAckTimeout q s))"
  unfolding onAckTimeout_def Let_def
  using assms by (auto intro!: survives_clearTimeout survives_removeFromQueue)

lemma survives_fire:
  assumes "t \<in> set (timers s)" and "timer_id u \<noteq> timer_id t"
    and "\<forall>q' \<in> set (queue s). action (message q') = action (message (pending_of (callback u))) \<longrightarrow>
           replyTimer q' \<noteq> timer_id t"
    and "replyTimer (pending_of (callback u)) \<noteq> timer_id t"
  shows "t \<in> set (timers (fire u s))"
proof -
  let ?s1 = "s\<lparr>timers := filter (\<lambda>x. timer_id x \<noteq> timer_id u) (timers s),
               now := max (now s) (deadline u)\<rparr>"
  have a: "t \<in> set (timers ?s1)" using assms(1,2) by simp
  have b: "queue ?s1 = queue s" by simp
  show ?thesis
  proof (cases "callback u")
    case (AckTimeout q)
    with assms(3,4) a b show ?thesis
      by (simp add: fire_def Let_def survives_onAckTimeout)
  next
    case (ReplyTimeout q)
    with assms(3) a b show ?thesis
      by (simp add: fire_def Let_def survives_onReplyTimeout)
  qed
qed

lemma promises_onReplyTimeout:
  "promise q \<noteq> x \<Longrightarrow> promises (onReplyTimeout q s) x = promises s x"
  by (simp add: onReplyTimeout_def settle_promises)

lemma promises_onAckTimeout:
  "promise q \<noteq> x \<Longrightarrow> promises (onAckTimeout q s) x = promises s x"
  by (simp add: onAckTimeout_def Let_def settle_promises)

lemma promises_fire:
  "promise (pending_of (callback u)) \<noteq> x \<Longrightarrow> promises (fire u s) x = promises s x"
  by (cases "callback u")
     (simp_all add: fire_def Let_def promises_onAckTimeout promises_onReplyTimeout)

lemma queue_onReplyTimeout:
  "queue (onReplyTimeout q s) = filter (\<lambda>p. action (message p) \<noteq> action (message q)) (queue s)"
  by (simp add: onReplyTimeout_def)

lemma queue_onAckTimeout:
  "queue (onAckTimeout q s) = filter (\<lambda>p. action (message p) \<noteq> action (message q)) (queue s)"
  by (simp add: onAckTimeout_def Let_def)

lemma queue_fire:
  "queue (fire u s) =
     filter (\<lambda>p. action (message p) \<noteq> action (message (pending_of (callback u)))) (queue s)"
  by (cases "callback u") (simp_all add: fire_def Let_def queue_onAckTimeout queue_onReplyTimeout)

lemma timers_onReplyTimeout_subset: "set (timers (onReplyTimeout q s)) \<subseteq> set (timers s)"
  unfolding onReplyTimeout_def
  using removeFromQueue_timers_subset [of "action (message q)"
      "settle (promise q) (Rejected (Err ActionTimeoutError)) s"]
  by simp

lemma timers_onAckTimeout_subset: "set (timers (onAckTimeout q s)) \<subseteq> set (timers s)"
proof -
  have "set (timers (clearTimeout i (removeFromQueue a (settle pid v s)))) \<subseteq> set (timers s)"
    for i a pid v
    using removeFromQueue_timers_subset [of a "settle pid v s"] by auto
  then show ?thesis by (simp add: onAckTimeout_def Let_def)
qed

lemma timers_fire_subset: "set (timers (fire u s)) \<subseteq> set (timers s)"
proof -
  let ?s1 = "s\<lparr>timers := filter (\<lambda>x. timer_id x \<noteq> timer_id u) (timers s),
               now := max (now s) (deadline u)\<rparr>"
  have a: "set (timers ?s1) \<subseteq> set (timers s)" by auto
  show ?thesis
  proof (cases "callback u")
    case (AckTimeout q)
    with a timers_onAckTimeout_subset [of q ?s1] show ?thesis
      by (simp add: fire_def Let_def) blast
  next
    case (ReplyTimeout q)
    with a timers_onReplyTimeout_subset [of q ?s1] show ?thesis
      by (simp add: fire_def Let_def) blast
  qed
qed

lemma receive_cases:
  "receive e m s = s \<or>
   (\<exists>q. q \<in> set (queue s) \<and> prefix ''web-eid:'' (action m) \<and>
        action (message q) = getInitialAction (action m) \<and>
        (match_suffix (action m) = Some ''ack'' \<and> receive e m s = clearTimeout (ackTimer q) s \<or>
         (match_suffix (action m) = Some ''success'' \<or> match_suffix (action m) = Some ''failure'') \<and>
         (\<exists>v. receive e m s = removeFromQueue (action (message q)) (settle (promise q) v s))))"
proof (cases "getPendingMessage (getInitialAction (action m)) s")
  case None
  then show ?thesis by (simp add: receive_def Let_def)
next
  case (Some q)
  then have q: "q \<in> set (queue s) \<and> action (message q) = getInitialAction (action m)"
    by (rule getPendingMessage_Some)
  show ?thesis
  proof (cases "prefix ''web-eid:'' (action m)")
    case False
    then show ?thesis by (simp add: receive_def)
  next
    case True
    consider "match_suffix (action m) = Some ''ack''"
      | "match_suffix (action m) \<noteq> Some ''ack''" "match_suffix (action m) = Some ''success''"
      | "match_suffix (action m) \<noteq> Some ''ack''" "match_suffix (action m) \<noteq> Some ''success''"
        "match_suffix (action m) = Some ''failure''"
      | "match_suffix (action m) \<noteq> Some ''ack''" "match_suffix (action m) \<noteq> Some ''success''"
        "match_suffix (action m) \<noteq> Some ''failure''"
      by blast
    then show ?thesis
    proof cases
      case 1
      with True Some q show ?thesis by (simp add: receive_def Let_def) blast
    next
      case 2
      with True Some q have
        "receive e m s = removeFromQueue (action (message q)) (settle (promise q) (Fulfilled m) s)"
        by (simp add: receive_def Let_def)
      with True q 2 show ?thesis by blast
    next
      case 3
      with True Some q have
        "receive e m s = removeFromQueue (action (message q))
           (settle (promise q)
              (Rejected (case error m of Some x \<Rightarrow> Err (deserializeError e x) | None \<Rightarrow> Raw m)) s)"
        by (simp add: receive_def Let_def)
      with True q 3 show ?thesis by blast
    next
      case 4
      with True Some show ?thesis by (simp add: receive_def Let_def)
    qed
  qed
qed


subsection \<open>Requests that wait for their ack timer\<close>

lemma fire_if_armed_simps:
  "u \<in> set (timers s) \<Longrightarrow> fire_if_armed s u = fire u s"
  "u \<notin> set (timers s) \<Longrightarrow> fire_if_armed s u = s"
  by (simp_all add: fire_if_armed_def)

lemma handles_apart:
  assumes "inv s" and "p \<in> known s" and "q \<in> known s"
  shows "replyTimer q \<noteq> ackTimer p" and "ackTimer q \<noteq> replyTimer p"
    and "q \<noteq> p \<Longrightarrow> ackTimer q \<noteq> ackTimer p" and "q \<noteq> p \<Longrightarrow> replyTimer q \<noteq> replyTimer p"
    and "q \<noteq> p \<Longrightarrow> promise q \<noteq> promise p"
proof -
  have k: "inv_known s" using assms(1) by (simp add: inv_def)
  have lt: "ackTimer p < replyTimer p" "ackTimer q < replyTimer q"
    using k assms(2,3) unfolding inv_known_def by blast+
  have d: "q \<noteq> p \<Longrightarrow> ackTimer q \<noteq> ackTimer p \<and> ackTimer q \<noteq> replyTimer p \<and>
      replyTimer q \<noteq> replyTimer p \<and> ackTimer p \<noteq> replyTimer q"
    using k assms(2,3) unfolding inv_known_def by metis
  have pr: "q \<noteq> p \<Longrightarrow> promise q \<noteq> promise p"
    using k assms(2,3) unfolding inv_known_def by blast
  show "replyTimer q \<noteq> ackTimer p" using lt d by (cases "q = p") auto
  show "ackTimer q \<noteq> replyTimer p" using lt d by (cases "q = p") auto
  show "q \<noteq> p \<Longrightarrow> ackTimer q \<noteq> ackTimer p" using d by blast
  show "q \<noteq> p \<Longrightarrow> replyTimer q \<noteq> replyTimer p" using d by blast
  show "q \<noteq> p \<Longrightarrow> promise q \<noteq> promise p" using pr by blast
qed

lemma timer_known: "t \<in> set (timers s) \<Longrightarrow> pending_of (callback t) \<in> known s"
  by (auto simp: known_def)

lemma queue_known: "q \<in> set (queue s) \<Longrightarrow> q \<in> known s"
  by (simp add: known_def)

lemma timer_handle: "inv s \<Longrightarrow> t \<in> set (timers s) \<Longrightarrow> timer_id t = handle_of (callback t)"
  by (simp add: inv_def inv_timers_def)

lemma foreign_timer_id:
  assumes "inv s" and "p \<in> known s" and "u \<in> set (timers s)" and "pending_of (callback u) \<noteq> p"
  shows "timer_id u \<noteq> ackTimer p" and "timer_id u \<noteq> replyTimer p"
proof -
  let ?q = "pending_of (callback u)"
  have q: "?q \<in> known s" using assms(3) by (rule timer_known)
  have h: "timer_id u = handle_of (callback u)" using assms(1,3) by (rule timer_handle)
  note a = handles_apart [OF assms(1,2) q]
  show "timer_id u \<noteq> ackTimer p"
    using h a(1) a(3) [OF assms(4)] by (cases "callback u") simp_all
  show "timer_id u \<noteq> replyTimer p"
    using h a(2) a(4) [OF assms(4)] by (cases "callback u") simp_all
qed

lemma ack_timer_simps [simp]:
  "timer_id (ack_timer p da) = ackTimer p"
  "deadline (ack_timer p da) = da"
  "callback (ack_timer p da) = AckTimeout p"
  "timer_id (reply_timer p dr) = replyTimer p"
  "deadline (reply_timer p dr) = dr"
  "callback (reply_timer p dr) = ReplyTimeout p"
  by (simp_all add: ack_timer_def reply_timer_def)

lemma own_timers_subset:
  "own_timers p da dr s \<Longrightarrow> set (timers s') \<subseteq> set (timers s) \<Longrightarrow> own_timers p da dr s'"
  unfolding own_timers_def by blast

lemma awaits_ack_known: "awaits_ack p da dr s \<Longrightarrow> p \<in> known s"
  unfolding awaits_ack_def using timer_known [of "ack_timer p da" s] by simp

lemma awaits_ack_shrink:
  assumes "awaits_ack p da dr s" and "inv s'" and "set (timers s') \<subseteq> set (timers s)"
    and "ack_timer p da \<in> set (timers s')" and "promises s' (promise p) = Some Pending"
  shows "awaits_ack p da dr s'"
  using assms own_timers_subset [of p da dr s s'] unfolding awaits_ack_def by blast

lemma awaits_ack_frame [simp]:
  "awaits_ack p da dr (s\<lparr>now := n\<rparr>) = awaits_ack p da dr s"
  "awaits_ack p da dr (s\<lparr>inbox := i\<rparr>) = awaits_ack p da dr s"
  "awaits_ack p da dr (s\<lparr>requests := r\<rparr>) = awaits_ack p da dr s"
  "awaits_ack p da dr (s\<lparr>effects := f\<rparr>) = awaits_ack p da dr s"
  by (simp_all add: awaits_ack_def own_timers_def)

lemma awaits_ack_fire:
  assumes "awaits_ack p da dr s" and "u \<in> set (timers s)" and "pending_of (callback u) \<noteq> p"
  shows "awaits_ack p da dr (fire u s)"
proof (rule awaits_ack_shrink [OF assms(1)])
  let ?q = "pending_of (callback u)"
  have i: "inv s" using assms(1) by (simp add: awaits_ack_def)
  have p: "p \<in> known s" using assms(1) by (rule awaits_ack_known)
  have q: "?q \<in> known s" using assms(2) by (rule timer_known)
  show "inv (fire u s)" using i assms(2) by (rule inv_fire)
  show "set (timers (fire u s)) \<subseteq> set (timers s)" by (rule timers_fire_subset)
  show "ack_timer p da \<in> set (timers (fire u s))"
  proof (rule survives_fire)
    show "ack_timer p da \<in> set (timers s)" using assms(1) by (simp add: awaits_ack_def)
    show "timer_id u \<noteq> timer_id (ack_timer p da)"
      using foreign_timer_id(1) [OF i p assms(2,3)] by simp
    show "\<forall>q' \<in> set (queue s). action (message q') = action (message ?q) \<longrightarrow>
           replyTimer q' \<noteq> timer_id (ack_timer p da)"
      using handles_apart(1) [OF i p] queue_known by simp
    show "replyTimer ?q \<noteq> timer_id (ack_timer p da)"
      using handles_apart(1) [OF i p q] by simp
  qed
  have "promise ?q \<noteq> promise p" using handles_apart(5) [OF i p q assms(3)] .
  then show "promises (fire u s) (promise p) = Some Pending"
    using assms(1) by (simp add: promises_fire awaits_ack_def)
qed

lemma awaits_ack_fold:
  assumes "awaits_ack p da dr s" and "ack_timer p da \<notin> set ts" and "reply_timer p dr \<notin> set ts"
  shows "awaits_ack p da dr (foldl fire_if_armed s ts)"
  using assms
proof (induction ts arbitrary: s)
  case Nil
  then show ?case by simp
next
  case (Cons u ts)
  have "awaits_ack p da dr (fire_if_armed s u)"
  proof (cases "u \<in> set (timers s)")
    case False
    with Cons.prems(1) show ?thesis by (simp add: fire_if_armed_simps)
  next
    case True
    have "pending_of (callback u) \<noteq> p"
    proof
      assume "pending_of (callback u) = p"
      with True Cons.prems(1) have "u = ack_timer p da \<or> u = reply_timer p dr"
        unfolding awaits_ack_def own_timers_def by blast
      with Cons.prems(2,3) show False by auto
    qed
    with Cons.prems(1) True show ?thesis
      by (simp add: fire_if_armed_simps awaits_ack_fire)
  qed
  with Cons.IH [of "fire_if_armed s u"] Cons.prems(2,3) show ?case by simp
qed

lemma awaits_ack_elapse:
  assumes "awaits_ack p da dr s" and "now s + d < da" and "now s + d < dr"
  shows "awaits_ack p da dr (elapse d s)"
proof -
  let ?due = "sort_key (\<lambda>t. (deadline t, timer_id t))
                (filter (\<lambda>t. deadline t \<le> now s + d) (timers s))"
  have "ack_timer p da \<notin> set ?due" "reply_timer p dr \<notin> set ?due"
    using assms(2,3) by auto
  with assms(1) have "awaits_ack p da dr (foldl fire_if_armed s ?due)"
    by (rule awaits_ack_fold)
  then show ?thesis by (simp add: elapse_def Let_def)
qed

lemma awaits_ack_removeFromQueue:
  assumes "awaits_ack p da dr s"
  shows "awaits_ack p da dr (removeFromQueue a s)"
proof (rule awaits_ack_shrink [OF assms])
  have i: "inv s" using assms by (simp add: awaits_ack_def)
  have p: "p \<in> known s" using assms by (rule awaits_ack_known)
  show "inv (removeFromQueue a s)" using i by (rule inv_removeFromQueue)
  show "set (timers (removeFromQueue a s)) \<subseteq> set (timers s)"
    by (rule removeFromQueue_timers_subset)
  show "ack_timer p da \<in> set (timers (removeFromQueue a s))"
  proof (rule survives_removeFromQueue)
    show "ack_timer p da \<in> set (timers s)" using assms by (simp add: awaits_ack_def)
    show "\<forall>q \<in> set (queue s). action (message q) = a \<longrightarrow> replyTimer q \<noteq> timer_id (ack_timer p da)"
      using handles_apart(1) [OF i p] queue_known by simp
  qed
  show "promises (removeFromQueue a s) (promise p) = Some Pending"
    using assms by (simp add: awaits_ack_def)
qed

lemma awaits_ack_receive:
  assumes "awaits_ack p da dr s"
    and "\<not> ack_for (action (message p)) m" and "\<not> terminal_for (action (message p)) m"
  shows "awaits_ack p da dr (receive e m s)"
proof -
  have i: "inv s" using assms(1) by (simp add: awaits_ack_def)
  have p: "p \<in> known s" using assms(1) by (rule awaits_ack_known)
  have ta: "ack_timer p da \<in> set (timers s)" using assms(1) by (simp add: awaits_ack_def)
  have pe: "promises s (promise p) = Some Pending" using assms(1) by (simp add: awaits_ack_def)
  from receive_cases [of e m s] consider "receive e m s = s"
    | q where "q \<in> set (queue s)" "prefix ''web-eid:'' (action m)"
        "action (message q) = getInitialAction (action m)"
        "match_suffix (action m) = Some ''ack''" "receive e m s = clearTimeout (ackTimer q) s"
    | q v where "q \<in> set (queue s)" "prefix ''web-eid:'' (action m)"
        "action (message q) = getInitialAction (action m)"
        "match_suffix (action m) = Some ''success'' \<or> match_suffix (action m) = Some ''failure''"
        "receive e m s = removeFromQueue (action (message q)) (settle (promise q) v s)"
    by blast
  then show ?thesis
  proof cases
    case 1
    with assms(1) show ?thesis by simp
  next
    case 2
    have "q \<noteq> p" using 2(2,3,4) assms(2) by (auto simp: ack_for_def)
    then have "ackTimer q \<noteq> ackTimer p"
      using handles_apart(3) [OF i p queue_known [OF 2(1)]] by simp
    with ta have "ack_timer p da \<in> set (timers (clearTimeout (ackTimer q) s))" by simp
    moreover have "inv (clearTimeout (ackTimer q) s)" using i by (rule inv_clearTimeout)
    ultimately show ?thesis
      unfolding 2(5) using pe by (intro awaits_ack_shrink [OF assms(1)]) auto
  next
    case 3
    have "q \<noteq> p" using 3(2,3,4) assms(3) by (auto simp: terminal_for_def)
    then have pr: "promise q \<noteq> promise p"
      using handles_apart(5) [OF i p queue_known [OF 3(1)]] by simp
    have "inv (receive e m s)" using i by (rule inv_receive)
    then have i': "inv (removeFromQueue (action (message q)) (settle (promise q) v s))"
      unfolding 3(5) .
    have t': "ack_timer p da \<in> set (timers (removeFromQueue (action (message q))
                (settle (promise q) v s)))"
    proof (rule survives_removeFromQueue)
      show "ack_timer p da \<in> set (timers (settle (promise q) v s))" using ta by simp
      show "\<forall>q' \<in> set (queue (settle (promise q) v s)).
              action (message q') = action (message q) \<longrightarrow> replyTimer q' \<noteq> timer_id (ack_timer p da)"
        using handles_apart(1) [OF i p] queue_known by simp
    qed
    have s': "set (timers (removeFromQueue (action (message q)) (settle (promise q) v s)))
                \<subseteq> set (timers s)"
      using removeFromQueue_timers_subset [of "action (message q)" "settle (promise q) v s"]
      by simp
    have "promises (removeFromQueue (action (message q)) (settle (promise q) v s)) (promise p)
            = Some Pending"
      using pr pe by (simp add: settle_promises)
    with i' t' s' show ?thesis
      unfolding 3(5) by (intro awaits_ack_shrink [OF assms(1)])
  qed
qed


lemma known_promise_less: "inv s \<Longrightarrow> q \<in> known s \<Longrightarrow> promise q < next_promise s"
  unfolding inv_def inv_known_def by blast

lemma awaits_ack_send:
  assumes "awaits_ack p da dr s"
  shows "awaits_ack p da dr (snd (send e m t s))"
proof -
  let ?s' = "snd (send e m t s)"
  let ?p' = "\<lparr> message = m, promise = next_promise s,
        ackTimer = next_timer s, replyTimer = next_timer s + 1 \<rparr>"
  have i: "inv s" using assms by (simp add: awaits_ack_def)
  have p: "p \<in> known s" using assms by (rule awaits_ack_known)
  have lt: "promise p < next_promise s" using i p by (rule known_promise_less)
  from send_cases [of e m t s] consider "?s' = s"
    | "promises ?s' = (promises s)(next_promise s \<mapsto> Pending)"
      "timers ?s' = timers s @ [ack_timer ?p' (now s + timer_delay (EXTENSION_HANDSHAKE_TIMEOUT e)),
                                reply_timer ?p' (now s + timer_delay t)]"
    by blast
  then show ?thesis
  proof cases
    case 1
    with assms show ?thesis by simp
  next
    case 2
    have ne: "?p' \<noteq> p" using lt by auto
    have a: "inv ?s'" using i by (rule inv_send)
    have b: "promises ?s' (promise p) = Some Pending"
      using assms lt by (simp add: 2(1) awaits_ack_def)
    have c: "ack_timer p da \<in> set (timers ?s')"
      using assms by (simp add: 2(2) awaits_ack_def)
    have d: "own_timers p da dr ?s'"
      using assms ne unfolding awaits_ack_def own_timers_def 2(2) by auto
    from a b c d show ?thesis unfolding awaits_ack_def by blast
  qed
qed

lemma awaits_ack_step:
  assumes "awaits_ack p da dr s"
    and "case dispatched s ev of None \<Rightarrow> True
         | Some m \<Rightarrow> \<not> ack_for (action (message p)) m \<and> \<not> terminal_for (action (message p)) m"
    and "\<forall>d. ev = Elapse d \<longrightarrow> now s + d < da \<and> now s + d < dr"
  shows "awaits_ack p da dr (step e s ev)"
proof (cases ev)
  case (Send m t)
  with assms(1) show ?thesis by (simp add: step_def awaits_ack_send)
next
  case (Receive m)
  with assms(1,2) show ?thesis by (simp add: step_def dispatched_def awaits_ack_receive)
next
  case Deliver
  show ?thesis
  proof (cases "inbox s")
    case Nil
    with Deliver assms(1) show ?thesis by (simp add: step_def)
  next
    case (Cons m ms)
    have "awaits_ack p da dr (s\<lparr>inbox := ms\<rparr>)" using assms(1) by simp
    moreover have "\<not> ack_for (action (message p)) m \<and> \<not> terminal_for (action (message p)) m"
      using assms(2) Deliver Cons by (simp add: dispatched_def)
    ultimately show ?thesis
      using Deliver Cons by (simp add: step_def awaits_ack_receive)
  qed
next
  case (Elapse d)
  with assms(1,3) show ?thesis by (simp add: step_def awaits_ack_elapse)
next
  case (PollResponse i status)
  have "awaits_ack p da dr (removeFromQueue a (s\<lparr>requests := r, effects := f\<rparr>))" for a r f
    using assms(1) by (intro awaits_ack_removeFromQueue) simp
  with PollResponse assms(1) show ?thesis
    by (simp add: step_def Let_def on_response_def on_response_services_def postMessage_def
        displayRelevantError_def split: revision.splits)
next
  case (PollError i)
  have "awaits_ack p da dr (removeFromQueue a (s\<lparr>requests := r\<rparr>))" for a r
    using assms(1) by (intro awaits_ack_removeFromQueue) simp
  with PollError assms(1) show ?thesis
    by (simp add: step_def Let_def on_error_def on_error_services_def postMessage_def
        split: revision.splits)
qed

lemma run_Cons: "run e (ev # evs) s = run e evs (step e s ev)"
  by (simp add: run_def)

lemma elapsed_Cons: "elapsed (ev # evs) = elapsed [ev] + elapsed evs"
  by (cases ev) simp_all

lemma stays_before_step:
  assumes "stays_before (dl - now s) (ev # evs)"
  shows "\<forall>d. ev = Elapse d \<longrightarrow> now s + d < dl"
    and "stays_before (dl - now (step e s ev)) evs"
proof -
  show "\<forall>d. ev = Elapse d \<longrightarrow> now s + d < dl" using assms by auto
  show "stays_before (dl - now (step e s ev)) evs"
    using assms by (cases ev) (simp_all add: now_step)
qed

lemma awaits_ack_run:
  assumes "awaits_ack p da dr s" and "unanswered e (action (message p)) s evs"
    and "stays_before (da - now s) evs" and "da \<le> dr"
  shows "awaits_ack p da dr (run e evs s)"
  using assms(1,2,3)
proof (induction evs arbitrary: s)
  case Nil
  then show ?case by (simp add: run_def)
next
  case (Cons ev evs)
  note sb = stays_before_step [OF Cons.prems(3)]
  have "awaits_ack p da dr (step e s ev)"
    using Cons.prems(1,2) sb(1) assms(4) by (intro awaits_ack_step) auto
  moreover have "unanswered e (action (message p)) (step e s ev) evs"
    using Cons.prems(2) by simp
  ultimately show ?case
    unfolding run_Cons using sb(2) by (rule Cons.IH)
qed

subsection \<open>The timer that is due\<close>


lemma fire_ack_timeout:
  assumes "promises s (promise p) = Some Pending" and "callback t = AckTimeout p"
  shows "promises (fire t s) (promise p)
           = Some (Rejected (Err (if useAuthApp (message p) = Some True
                                  then AuthAppNotInstalledError
                                  else ExtensionUnavailableError))) \<and>
         getPendingMessage (action (message p)) (fire t s) = None"
  using assms by (simp add: fire_def Let_def onAckTimeout_def settle_promises)

lemma queue_fold_fire_subset: "set (queue (foldl fire_if_armed s ts)) \<subseteq> set (queue s)"
proof (induction ts arbitrary: s)
  case Nil
  show ?case by simp
next
  case (Cons u ts)
  have "set (queue (fire_if_armed s u)) \<subseteq> set (queue s)"
    by (auto simp: fire_if_armed_def queue_fire)
  with Cons.IH [of "fire_if_armed s u"] show ?case by auto
qed

lemma settled_fold_fire:
  assumes "inv s" and "promises s x = Some v" and "v \<noteq> Pending"
  shows "promises (foldl fire_if_armed s ts) x = Some v"
proof -
  have "x < next_promise s" using assms(1,2) by (auto simp: inv_def)
  with assms(2,3) advances_fold_fire [of s ts] show ?thesis
    unfolding advances_def by blast
qed

lemma rejected_stays:
  assumes "inv s" and "promises s x = Some v" and "v \<noteq> Pending"
    and "getPendingMessage a s = None"
  shows "promises (foldl fire_if_armed s ts) x = Some v \<and>
         getPendingMessage a (foldl fire_if_armed s ts) = None"
  using settled_fold_fire [OF assms(1,2,3)] assms(4) queue_fold_fire_subset [of s ts]
  by (auto simp: getPendingMessage_None)

lemma sorted_key_Cons:
  "sorted (map k (u # ts)) \<Longrightarrow> t \<in> set ts \<Longrightarrow> k u \<le> k t"
  by auto

lemma ack_timer_fires:
  assumes "awaits_ack p da dr s" and "da \<le> dr"
    and "sorted (map (\<lambda>t. (deadline t, timer_id t)) ts)" and "ack_timer p da \<in> set ts"
  shows "promises (foldl fire_if_armed s ts) (promise p)
           = Some (Rejected (Err (if useAuthApp (message p) = Some True
                                  then AuthAppNotInstalledError
                                  else ExtensionUnavailableError))) \<and>
         getPendingMessage (action (message p)) (foldl fire_if_armed s ts) = None"
  using assms(1,3,4)
proof (induction ts arbitrary: s)
  case Nil
  then show ?case by simp
next
  case (Cons u ts)
  have i: "inv s" using Cons.prems(1) by (simp add: awaits_ack_def)
  have pk: "p \<in> known s" using Cons.prems(1) by (rule awaits_ack_known)
  have ta: "ack_timer p da \<in> set (timers s)" using Cons.prems(1) by (simp add: awaits_ack_def)
  show ?case
  proof (cases "u = ack_timer p da")
    case True
    have pe: "promises s (promise p) = Some Pending"
      using Cons.prems(1) by (simp add: awaits_ack_def)
    have f: "promises (fire u s) (promise p)
           = Some (Rejected (Err (if useAuthApp (message p) = Some True
                                  then AuthAppNotInstalledError
                                  else ExtensionUnavailableError))) \<and>
         getPendingMessage (action (message p)) (fire u s) = None"
      using pe by (rule fire_ack_timeout) (simp add: True)
    have "inv (fire u s)" using i ta unfolding True by (rule inv_fire)
    from rejected_stays [OF this, of "promise p" _ "action (message p)" ts] f
    have "promises (foldl fire_if_armed (fire u s) ts) (promise p)
           = Some (Rejected (Err (if useAuthApp (message p) = Some True
                                  then AuthAppNotInstalledError
                                  else ExtensionUnavailableError))) \<and>
         getPendingMessage (action (message p)) (foldl fire_if_armed (fire u s) ts) = None"
      by simp
    then show ?thesis using ta True by (simp add: fire_if_armed_simps)
  next
    case False
    with Cons.prems(3) have in_ts: "ack_timer p da \<in> set ts" by simp
    have le: "(deadline u, timer_id u) \<le> (da, ackTimer p)"
      using sorted_key_Cons [OF Cons.prems(2) in_ts] by simp
    have "awaits_ack p da dr (fire_if_armed s u)"
    proof (cases "u \<in> set (timers s)")
      case False
      with Cons.prems(1) show ?thesis by (simp add: fire_if_armed_simps)
    next
      case True
      have "pending_of (callback u) \<noteq> p"
      proof
        assume "pending_of (callback u) = p"
        with True Cons.prems(1) have "u = ack_timer p da \<or> u = reply_timer p dr"
          unfolding awaits_ack_def own_timers_def by blast
        with False have u: "u = reply_timer p dr" by simp
        have "ackTimer p < replyTimer p"
          using i pk unfolding inv_def inv_known_def by blast
        with le assms(2) show False unfolding u by simp
      qed
      with Cons.prems(1) True show ?thesis
        by (simp add: fire_if_armed_simps awaits_ack_fire)
    qed
    moreover have "sorted (map (\<lambda>t. (deadline t, timer_id t)) ts)"
      using Cons.prems(2) by simp
    ultimately show ?thesis
      using Cons.IH [of "fire_if_armed s u"] in_ts by simp
  qed
qed

lemma ack_timer_elapse:
  assumes "awaits_ack p da dr s" and "da \<le> dr" and "da \<le> now s + d"
  shows "promises (elapse d s) (promise p)
           = Some (Rejected (Err (if useAuthApp (message p) = Some True
                                  then AuthAppNotInstalledError
                                  else ExtensionUnavailableError))) \<and>
         getPendingMessage (action (message p)) (elapse d s) = None"
proof -
  let ?due = "sort_key (\<lambda>t. (deadline t, timer_id t))
                (filter (\<lambda>t. deadline t \<le> now s + d) (timers s))"
  have "ack_timer p da \<in> set ?due"
    using assms(1,3) by (simp add: awaits_ack_def)
  moreover have "sorted (map (\<lambda>t. (deadline t, timer_id t)) ?due)"
    by (rule sorted_sort_key)
  ultimately show ?thesis
    using ack_timer_fires [OF assms(1,2)]
    by (simp add: elapse_def Let_def getPendingMessage_def)
qed

lemma send_awaits_ack:
  assumes "inv s" and "send e m t s = (Returned pid, s1)"
  shows "awaits_ack \<lparr> message = m, promise = pid, ackTimer = next_timer s,
                      replyTimer = next_timer s + 1 \<rparr>
           (now s + timer_delay (EXTENSION_HANDSHAKE_TIMEOUT e)) (now s + timer_delay t) s1"
proof -
  let ?p = "\<lparr> message = m, promise = next_promise s,
        ackTimer = next_timer s, replyTimer = next_timer s + 1 \<rparr>"
  note r = send_returned [OF assms(2)]
  have s1: "s1 = snd (send e m t s)" using assms(2) by simp
  have a: "inv s1" unfolding s1 using assms(1) by (rule inv_send)
  have b: "promises s1 (promise ?p) = Some Pending" using r by simp
  have c: "ack_timer ?p (now s + timer_delay (EXTENSION_HANDSHAKE_TIMEOUT e)) \<in> set (timers s1)"
    using r by simp
  have old: "\<forall>u \<in> set (timers s). pending_of (callback u) \<noteq> ?p"
  proof
    fix u assume "u \<in> set (timers s)"
    then have "pending_of (callback u) \<in> known s" by (rule timer_known)
    with assms(1) have "promise (pending_of (callback u)) < next_promise s"
      by (rule known_promise_less)
    then show "pending_of (callback u) \<noteq> ?p" by auto
  qed
  have d: "own_timers ?p (now s + timer_delay (EXTENSION_HANDSHAKE_TIMEOUT e))
             (now s + timer_delay t) s1"
    using old r unfolding own_timers_def by auto
  from a b c d r show ?thesis unfolding awaits_ack_def by simp
qed


subsection \<open>Requests that wait for their reply timer\<close>




lemma awaits_reply_frame [simp]:
  "awaits_reply p da dr (s\<lparr>now := n\<rparr>) = awaits_reply p da dr s"
  "awaits_reply p da dr (s\<lparr>inbox := i\<rparr>) = awaits_reply p da dr s"
  "awaits_reply p da dr (s\<lparr>requests := r\<rparr>) = awaits_reply p da dr s"
  "awaits_reply p da dr (s\<lparr>effects := f\<rparr>) = awaits_reply p da dr s"
  by (simp_all add: awaits_reply_def own_timers_def)




















subsection \<open>Timeouts\<close>

lemma run_snoc_Elapse: "run e (evs @ [Elapse d]) s = elapse d (run e evs s)"
  by (simp add: run_def step_def)

text \<open>
  An \<^verbatim>\<open>-ack\<close> for a registered request clears the ack timer of that request and nothing
  else: the request stays registered and its reply timer stays armed.
\<close>

lemma receive_ack:
  assumes "inv s" and "p \<in> set (queue s)"
    and "prefix ''web-eid:'' (action (message p))"
    and "action a = action (message p) @ ''-ack''"
  shows "receive e a s = clearTimeout (ackTimer p) s"
proof -
  have f: "getPendingMessage (action (message p)) s = Some p"
    using assms(1,2) by (rule registered_found)
  have g: "getInitialAction (action a) = action (message p)"
    unfolding assms(4) by (rule getInitialAction_append) simp
  have m: "match_suffix (action a) = Some ''ack''"
    unfolding assms(4) by (rule match_suffix_ack)
  have pre: "prefix ''web-eid:'' (action a)"
    unfolding assms(4) using assms(3) by (rule prefix_prefix)
  show ?thesis
    using f g m pre by (simp add: receive_def Let_def)
qed




text \<open>
  Claim C4, as stated: for every registered request, if no \<^verbatim>\<open>-ack\<close> arrives within the handshake
  timeout, the future is rejected with \<^verbatim>\<open>AuthAppNotInstalledError\<close> or
  \<^verbatim>\<open>ExtensionUnavailableError\<close>.  With a handshake timeout of one second, a request sent with a
  timeout of half a second that nobody answers is rejected with \<^verbatim>\<open>ActionTimeoutError\<close> after
  half a second and stays so; and a request that is answered with \<^verbatim>\<open>-success\<close> or \<^verbatim>\<open>-failure\<close>
  after 100 ms, without any \<^verbatim>\<open>-ack\<close>, is fulfilled, or rejected with the message received, and
  stays so when the handshake timeout passes.
\<close>

theorem ack_timeout_counterexample:
  "promises (run desktop [Send card_request 500, Elapse 500] init) 0
     = Some (Rejected (Err ActionTimeoutError)) \<and>
   promises (run desktop [Send card_request 500, Elapse 500, Elapse 500] init) 0
     = Some (Rejected (Err ActionTimeoutError)) \<and>
   promises (run desktop [Send card_request 30000, Elapse 100,
                          Receive (action_only AUTHENTICATE_SUCCESS), Elapse 900] init) 0
     = Some (Fulfilled (action_only AUTHENTICATE_SUCCESS)) \<and>
   promises (run desktop [Send card_request 30000, Elapse 100,
                          Receive (action_only AUTHENTICATE_FAILURE), Elapse 900] init) 0
     = Some (Rejected (Raw (action_only AUTHENTICATE_FAILURE)))"
  by (simp add: service_defs action_defs sample_defs Let_def)

text \<open>
  Claim C4, amended.  Take a request that \<open>send\<close> creates (it returns the future \<open>pid\<close>) in a
  reachable state, with a caller-supplied timeout that is not shorter than the handshake
  timeout, both counted as the delays that \<^verbatim>\<open>setTimeout\<close> makes of them.  Suppose the run \<open>evs\<close>
  that follows does not let the handshake timeout pass and dispatches no \<^verbatim>\<open>-ack\<close>, \<^verbatim>\<open>-success\<close> or
  \<^verbatim>\<open>-failure\<close> message for the action.  Then, when time passes up to or beyond the handshake
  timeout, the future is rejected with \<^verbatim>\<open>AuthAppNotInstalledError\<close> if the flag \<^verbatim>\<open>useAuthApp\<close> of the
  request message is true and with \<^verbatim>\<open>ExtensionUnavailableError\<close> otherwise, and the registry
  has no entry for the action.
\<close>

theorem ack_timeout_rejects:
  assumes "send e m timeout (run e evs0 init) = (Returned pid, s1)"
    and "timer_delay (EXTENSION_HANDSHAKE_TIMEOUT e) \<le> timer_delay timeout"
    and "unanswered e (action m) s1 evs"
    and "stays_before (timer_delay (EXTENSION_HANDSHAKE_TIMEOUT e)) evs"
    and "timer_delay (EXTENSION_HANDSHAKE_TIMEOUT e) \<le> elapsed evs + d"
  shows "promises (run e (evs @ [Elapse d]) s1) pid
           = Some (Rejected (Err (if useAuthApp m = Some True
                                  then AuthAppNotInstalledError
                                  else ExtensionUnavailableError))) \<and>
         getPendingMessage (action m) (run e (evs @ [Elapse d]) s1) = None"
proof -
  let ?s0 = "run e evs0 init"
  let ?p = "\<lparr> message = m, promise = pid, ackTimer = next_timer ?s0,
              replyTimer = next_timer ?s0 + 1 \<rparr>"
  let ?da = "now ?s0 + timer_delay (EXTENSION_HANDSHAKE_TIMEOUT e)"
  let ?dr = "now ?s0 + timer_delay timeout"
  have i: "inv ?s0" by (rule inv_reachable)
  have a: "awaits_ack ?p ?da ?dr s1"
    using i assms(1) by (rule send_awaits_ack)
  have "s1 = snd (send e m timeout ?s0)" using assms(1) by simp
  then have n: "now s1 = now ?s0" by simp
  have u: "unanswered e (action (message ?p)) s1 evs" using assms(3) by simp
  have t: "stays_before (?da - now s1) evs" using assms(4) n by simp
  have le: "?da \<le> ?dr" using assms(2) by simp
  have b: "awaits_ack ?p ?da ?dr (run e evs s1)"
    using a u t le by (rule awaits_ack_run)
  have "?da \<le> now (run e evs s1) + d" using assms(5) n by (simp add: now_run)
  with b le have "promises (elapse d (run e evs s1)) (promise ?p)
           = Some (Rejected (Err (if useAuthApp (message ?p) = Some True
                                  then AuthAppNotInstalledError
                                  else ExtensionUnavailableError))) \<and>
         getPendingMessage (action (message ?p)) (elapse d (run e evs s1)) = None"
    by (rule ack_timer_elapse)
  then show ?thesis by (simp add: run_snoc_Elapse)
qed

theorem ack_timeout_rejects_witness:
  "send (desktop\<lparr>isAndroidDevice := True\<rparr>) auth_request 30000
       (run (desktop\<lparr>isAndroidDevice := True\<rparr>) [] init)
     = (Returned 0, snd (send (desktop\<lparr>isAndroidDevice := True\<rparr>) auth_request 30000 init)) \<and>
   timer_delay (EXTENSION_HANDSHAKE_TIMEOUT (desktop\<lparr>isAndroidDevice := True\<rparr>))
     \<le> timer_delay 30000 \<and>
   unanswered (desktop\<lparr>isAndroidDevice := True\<rparr>) (action auth_request)
     (snd (send (desktop\<lparr>isAndroidDevice := True\<rparr>) auth_request 30000 init))
     [Elapse 400, Receive (action_only SIGN_ACK), Elapse 500] \<and>
   stays_before (timer_delay (EXTENSION_HANDSHAKE_TIMEOUT (desktop\<lparr>isAndroidDevice := True\<rparr>)))
     [Elapse 400, Receive (action_only SIGN_ACK), Elapse 500] \<and>
   timer_delay (EXTENSION_HANDSHAKE_TIMEOUT (desktop\<lparr>isAndroidDevice := True\<rparr>))
     \<le> elapsed [Elapse 400, Receive (action_only SIGN_ACK), Elapse 500] + 100 \<and>
   promises (run (desktop\<lparr>isAndroidDevice := True\<rparr>)
               ([Elapse 400, Receive (action_only SIGN_ACK), Elapse 500] @ [Elapse 100])
               (snd (send (desktop\<lparr>isAndroidDevice := True\<rparr>) auth_request 30000 init))) 0
     = Some (Rejected (Err AuthAppNotInstalledError)) \<and>
   getPendingMessage AUTHENTICATE
     (run (desktop\<lparr>isAndroidDevice := True\<rparr>)
        ([Elapse 400, Receive (action_only SIGN_ACK), Elapse 500] @ [Elapse 100])
        (snd (send (desktop\<lparr>isAndroidDevice := True\<rparr>) auth_request 30000 init))) = None"
proof -
  let ?e = "desktop\<lparr>isAndroidDevice := True\<rparr>"
  let ?s1 = "snd (send ?e auth_request 30000 init)"
  let ?evs = "[Elapse 400, Receive (action_only SIGN_ACK), Elapse 500]"
  have h1: "send ?e auth_request 30000 (run ?e [] init) = (Returned 0, ?s1)"
    by (simp add: service_defs intent_url_defs action_defs sample_defs Let_def)
  have h2: "timer_delay (EXTENSION_HANDSHAKE_TIMEOUT ?e) \<le> timer_delay 30000"
    by (simp add: timer_delay_def sample_defs)
  have h3: "unanswered ?e (action auth_request) ?s1 ?evs"
    by (simp add: service_defs intent_url_defs action_defs sample_defs Let_def dispatched_def
        ack_for_def terminal_for_def)
  have h4: "stays_before (timer_delay (EXTENSION_HANDSHAKE_TIMEOUT ?e)) ?evs"
    by (simp add: timer_delay_def sample_defs)
  have h5: "timer_delay (EXTENSION_HANDSHAKE_TIMEOUT ?e) \<le> elapsed ?evs + 100"
    by (simp add: timer_delay_def sample_defs)
  have u: "useAuthApp auth_request = Some True" "action auth_request = AUTHENTICATE"
    by (simp_all add: sample_defs)
  have "promises (run ?e (?evs @ [Elapse 100]) ?s1) 0
          = Some (Rejected (Err AuthAppNotInstalledError)) \<and>
        getPendingMessage AUTHENTICATE (run ?e (?evs @ [Elapse 100]) ?s1) = None"
    using ack_timeout_rejects [OF h1 h2 h3 h4 h5] unfolding u by simp
  with h1 h2 h3 h4 h5 show ?thesis by blast
qed

subsection \<open>Removal from the registry\<close>

text \<open>
  Claim C5, as stated: removal clears the ack timer and the reply timer of the matching
  request.  After one \<open>send\<close> the timers \<open>0\<close> (ack) and \<open>1\<close> (reply) are armed; \<open>removeFromQueue\<close>
  for that action leaves the ack timer \<open>0\<close> armed.
\<close>

theorem removeFromQueue_ack_timer_counterexample:
  "map ackTimer (queue (run desktop [Send card_request 30000] init)) = [0] \<and>
   map timer_id (timers (run desktop [Send card_request 30000] init)) = [0, 1] \<and>
   queue (removeFromQueue AUTHENTICATE (run desktop [Send card_request 30000] init)) = [] \<and>
   map timer_id (timers (removeFromQueue AUTHENTICATE (run desktop [Send card_request 30000] init)))
     = [0]"
  by (simp add: service_defs action_defs sample_defs Let_def)

text \<open>
  Claim C5, amended.  For every action \<open>a\<close>, \<open>removeFromQueue a\<close> clears the reply timer of the
  first pending message for \<open>a\<close>, if there is one, and deletes every entry for \<open>a\<close>; every
  other timer, the ack timer of that message included, stays as it is; and the state is
  unchanged when no entry for \<open>a\<close> exists.
\<close>

theorem removeFromQueue_effect:
  "(getPendingMessage a s = Some p \<longrightarrow>
      removeFromQueue a s
        = s\<lparr>timers := filter (\<lambda>t. timer_id t \<noteq> replyTimer p) (timers s),
            queue := filter (\<lambda>q. action (message q) \<noteq> a) (queue s)\<rparr> \<and>
      getPendingMessage a (removeFromQueue a s) = None) \<and>
   (getPendingMessage a s = None \<longrightarrow> removeFromQueue a s = s)"
proof -
  have a: "getPendingMessage a s = Some p \<longrightarrow>
      removeFromQueue a s
        = s\<lparr>timers := filter (\<lambda>t. timer_id t \<noteq> replyTimer p) (timers s),
            queue := filter (\<lambda>q. action (message q) \<noteq> a) (queue s)\<rparr>"
    by (simp add: removeFromQueue_def Let_def clearTimeout_def)
  have b: "getPendingMessage a s = None \<longrightarrow> removeFromQueue a s = s"
  proof
    assume n: "getPendingMessage a s = None"
    then have "filter (\<lambda>q. action (message q) \<noteq> a) (queue s) = queue s"
      by (auto simp: getPendingMessage_None filter_id_conv)
    with n show "removeFromQueue a s = s"
      by (simp add: removeFromQueue_def Let_def)
  qed
  have c: "getPendingMessage a (removeFromQueue a s) = None"
    by (rule removed_not_found)
  from a b c show ?thesis by blast
qed

theorem removeFromQueue_effect_witness:
  "getPendingMessage AUTHENTICATE (run desktop [Send card_request 30000] init)
     = Some \<lparr>message = card_request, promise = 0, ackTimer = 0, replyTimer = 1\<rparr> \<and>
   getPendingMessage AUTHENTICATE
     (removeFromQueue AUTHENTICATE (run desktop [Send card_request 30000] init)) = None \<and>
   getPendingMessage SIGN (run desktop [Send card_request 30000] init) = None \<and>
   removeFromQueue SIGN (run desktop [Send card_request 30000] init)
     = run desktop [Send card_request 30000] init"
proof -
  let ?s = "run desktop [Send card_request 30000] init"
  let ?p = "\<lparr>message = card_request, promise = 0, ackTimer = 0, replyTimer = 1\<rparr>"
  have h1: "getPendingMessage AUTHENTICATE ?s = Some ?p"
    by (simp add: service_defs action_defs sample_defs Let_def)
  have h2: "getPendingMessage SIGN ?s = None"
    by (simp add: service_defs action_defs sample_defs Let_def)
  show ?thesis
    using h1 h2 removeFromQueue_effect [where a = AUTHENTICATE and s = ?s and p = ?p]
      removeFromQueue_effect [where a = SIGN and s = ?s and p = ?p]
    by blast
qed

subsection \<open>Answers of the poll request\<close>

text \<open>
  Claim C6 on the copy of the service under \<^verbatim>\<open>src/services\<close>.  A mobile-flow request is sent
  from a desktop browser, the \<^verbatim>\<open>-ack\<close> posted by \<^verbatim>\<open>displayQRCode\<close> is dispatched, and the poll
  request is answered with status 449.  This copy shows an alert and removes the entry: no
  \<^verbatim>\<open>-failure\<close> event is posted, and the future stays unsettled with no entry and no timer
  left.  The same happens when the poll request fails.
\<close>

theorem services_copy_poll_449:
  "inbox (run (desktop\<lparr>revision := Services_copy\<rparr>)
            [Send auth_request 30000, Deliver, PollResponse 0 449] init) = [] \<and>
   effects (run (desktop\<lparr>revision := Services_copy\<rparr>)
            [Send auth_request 30000, Deliver, PollResponse 0 449] init)
     = [CanvasHtml ''<svg/>'', Alert ''Invalid PIN or CAN.''] \<and>
   promises (run (desktop\<lparr>revision := Services_copy\<rparr>)
            [Send auth_request 30000, Deliver, PollResponse 0 449] init) 0 = Some Pending \<and>
   queue (run (desktop\<lparr>revision := Services_copy\<rparr>)
            [Send auth_request 30000, Deliver, PollResponse 0 449] init) = [] \<and>
   timers (run (desktop\<lparr>revision := Services_copy\<rparr>)
            [Send auth_request 30000, Deliver, PollResponse 0 449] init) = [] \<and>
   inbox (run (desktop\<lparr>revision := Services_copy\<rparr>)
            [Send auth_request 30000, Deliver, PollError 0] init) = [] \<and>
   promises (run (desktop\<lparr>revision := Services_copy\<rparr>)
            [Send auth_request 30000, Deliver, PollError 0] init) 0 = Some Pending \<and>
   timers (run (desktop\<lparr>revision := Services_copy\<rparr>)
            [Send auth_request 30000, Deliver, PollError 0] init) = []"
  by (simp add: service_defs intent_url_defs action_defs sample_defs Let_def)

text \<open>
  The copy in \<^verbatim>\<open>part_000\<close> does what claim C6 says.  For a registered request with one of the
  three base actions, the answer of the poll request posts \<^verbatim>\<open>-success\<close> for status 200 and
  \<^verbatim>\<open>-failure\<close> with the error of the status otherwise, a failed request posts \<^verbatim>\<open>-failure\<close> with
  \<^verbatim>\<open>ServerRejectedError\<close>, and the dispatch of that message settles the future accordingly.
\<close>

lemma status_error_table:
  "status_error 400 = MissingParameterError ''A parameter is missing!''"
  "status_error 403 = ServerRejectedError None"
  "status_error 408 = ServerTimeoutError"
  "status_error 444 = UserCancelledError"
  "status_error 449 = UserPinError"
  "status \<notin> {400, 403, 408, 444, 449} \<Longrightarrow>
     status_error status = UnknownError (''Error code: '' @ nat_toString status)"
  by (simp_all add: status_error_def)

lemma relevant_actions:
  assumes "action m = AUTHENTICATE \<or> action m = SIGN \<or> action m = STATUS"
  shows "getRelevantAckAction m = action m @ ''-ack''"
    and "getRelevantSuccessAction m = action m @ ''-success''"
    and "getRelevantErrorAction m = action m @ ''-failure''"
  using assms
  by (auto simp: getRelevantAckAction_def getRelevantSuccessAction_def
      getRelevantErrorAction_def action_defs)

lemma match_suffix_long:
  assumes "7 < length y" and "match_suffix y = r"
  shows "match_suffix (x @ y) = r"
proof (induction x)
  case Nil
  from assms(2) show ?case by simp
next
  case (Cons c x)
  have len: "7 < length (c # x @ y)" using assms(1) by simp
  have "c # x @ y \<noteq> z" if "length z \<le> 7" for z
  proof
    assume "c # x @ y = z"
    then have "length (c # x @ y) = length z" by (rule arg_cong)
    with len that show False by simp
  qed
  note ne = this
  have "c # x @ y \<noteq> ''success''" by (rule ne) simp
  moreover have "c # x @ y \<noteq> ''failure''" by (rule ne) simp
  moreover have "c # x @ y \<noteq> ''ack''" by (rule ne) simp
  ultimately show ?case using Cons.IH by auto
qed

lemma match_suffix_success: "match_suffix (x @ ''-success'') = Some ''success''"
  by (rule match_suffix_long) simp_all

lemma match_suffix_failure: "match_suffix (x @ ''-failure'') = Some ''failure''"
  by (rule match_suffix_long) simp_all

lemma receive_terminal:
  assumes "inv s" and "p \<in> set (queue s)"
    and "prefix ''web-eid:'' (action (message p))"
  shows "action a = action (message p) @ ''-success'' \<Longrightarrow>
           receive e a s
             = removeFromQueue (action (message p)) (settle (promise p) (Fulfilled a) s)"
    and "action a = action (message p) @ ''-failure'' \<Longrightarrow>
           receive e a s
             = removeFromQueue (action (message p))
                 (settle (promise p)
                    (Rejected (case error a of Some x \<Rightarrow> Err (deserializeError e x)
                               | None \<Rightarrow> Raw a)) s)"
proof -
  have f: "getPendingMessage (action (message p)) s = Some p"
    using assms(1,2) by (rule registered_found)
  {
    assume h: "action a = action (message p) @ ''-success''"
    have g: "getInitialAction (action a) = action (message p)"
      unfolding h by (rule getInitialAction_append) simp
    have m: "match_suffix (action a) = Some ''success''"
      unfolding h by (rule match_suffix_success)
    have pre: "prefix ''web-eid:'' (action a)"
      unfolding h using assms(3) by (rule prefix_prefix)
    show "receive e a s
            = removeFromQueue (action (message p)) (settle (promise p) (Fulfilled a) s)"
      using f g m pre by (simp add: receive_def Let_def)
  }
  {
    assume h: "action a = action (message p) @ ''-failure''"
    have g: "getInitialAction (action a) = action (message p)"
      unfolding h by (rule getInitialAction_append) simp
    have m: "match_suffix (action a) = Some ''failure''"
      unfolding h by (rule match_suffix_failure)
    have pre: "prefix ''web-eid:'' (action a)"
      unfolding h using assms(3) by (rule prefix_prefix)
    show "receive e a s
            = removeFromQueue (action (message p))
                (settle (promise p)
                   (Rejected (case error a of Some x \<Rightarrow> Err (deserializeError e x)
                              | None \<Rightarrow> Raw a)) s)"
      using f g m pre by (simp add: receive_def Let_def)
  }
qed

lemma part_000_poll_settles:
  assumes "inv s" and "p \<in> set (queue s)" and "inbox s = []"
    and "action (message p) = AUTHENTICATE \<or> action (message p) = SIGN \<or>
         action (message p) = STATUS"
  shows "inbox (on_response (message p) 200 s)
           = [action_only (action (message p) @ ''-success'')]"
    and "status \<noteq> 200 \<Longrightarrow>
         inbox (on_response (message p) status s)
           = [(action_only (action (message p) @ ''-failure''))
                \<lparr>error := Some (status_error status)\<rparr>]"
    and "inbox (on_error (message p) s)
           = [(action_only (action (message p) @ ''-failure''))
                \<lparr>error := Some (ServerRejectedError None)\<rparr>]"
    and "promises (step e (on_response (message p) 200 s) Deliver) (promise p)
           = Some (Fulfilled (action_only (action (message p) @ ''-success'')))"
    and "status \<noteq> 200 \<Longrightarrow>
         promises (step e (on_response (message p) status s) Deliver) (promise p)
           = Some (Rejected (Err (deserializeError e (status_error status))))"
    and "promises (step e (on_error (message p) s) Deliver) (promise p)
           = Some (Rejected (Err (deserializeError e (ServerRejectedError None))))"
proof -
  note rel = relevant_actions [OF assms(4)]
  have pre: "prefix ''web-eid:'' (action (message p))"
    using assms(4) by (auto simp: action_defs)
  have u: "promises s (promise p) = Some Pending"
    using assms(1,2) by (rule registered_unsettled)
  have i: "inv (s\<lparr>inbox := []\<rparr>)" "p \<in> set (queue (s\<lparr>inbox := []\<rparr>))"
    using assms(1,2) by simp_all
  note rt = receive_terminal [OF i pre]
  show "inbox (on_response (message p) 200 s)
           = [action_only (action (message p) @ ''-success'')]"
    using assms(3) by (simp add: on_response_def postMessage_def rel)
  show "inbox (on_response (message p) status s)
           = [(action_only (action (message p) @ ''-failure''))
                \<lparr>error := Some (status_error status)\<rparr>]" if "status \<noteq> 200"
    using assms(3) that by (simp add: on_response_def postMessage_def rel)
  show "inbox (on_error (message p) s)
           = [(action_only (action (message p) @ ''-failure''))
                \<lparr>error := Some (ServerRejectedError None)\<rparr>]"
    using assms(3) by (simp add: on_error_def postMessage_def rel)
  show "promises (step e (on_response (message p) 200 s) Deliver) (promise p)
           = Some (Fulfilled (action_only (action (message p) @ ''-success'')))"
    using assms(3) u
    by (simp add: step_def on_response_def postMessage_def rel rt(1) action_only_def
        settle_promises)
  show "promises (step e (on_response (message p) status s) Deliver) (promise p)
           = Some (Rejected (Err (deserializeError e (status_error status))))"
    if "status \<noteq> 200"
    using assms(3) u that
    by (simp add: step_def on_response_def postMessage_def rel rt(2) action_only_def
        settle_promises)
  show "promises (step e (on_error (message p) s) Deliver) (promise p)
           = Some (Rejected (Err (deserializeError e (ServerRejectedError None))))"
    using assms(3) u
    by (simp add: step_def on_error_def postMessage_def rel rt(2) action_only_def
        settle_promises)
qed

subsection \<open>IntentUrl\<close>

lemma new_IntentUrl_cases:
  "new_IntentUrl m =
     (if (truthy_string (getAuthChallengeUrl m) \<and> truthy_string (postAuthTokenUrl m)) \<or>
         (truthy_string (postPrepareSigningUrl m) \<and> truthy_string (postFinalizeSigningUrl m))
      then Inr (IntentUrl_assign m)
      else Inl (MissingParameterError ''Missing parameters for IntentUrl.''))"
  by (auto simp: new_IntentUrl_def validate_def IntentUrl_assign_def copy_string_def
      truthy_string_def split: option.splits)

text \<open>
  Claim C8, as stated, with a field present when it is not \<^verbatim>\<open>undefined\<close>: the construction
  would succeed whenever one of the two pairs is complete.  It does not: a message whose
  \<^verbatim>\<open>getAuthChallengeUrl\<close> is the empty string and whose \<^verbatim>\<open>postAuthTokenUrl\<close> is set has the first
  pair complete, and the constructor throws \<^verbatim>\<open>MissingParameterError\<close>, because it copies a
  field only when it is truthy.
\<close>

theorem IntentUrl_empty_string_counterexample:
  "getAuthChallengeUrl
     ((action_only AUTHENTICATE)
        \<lparr>getAuthChallengeUrl := Some [], postAuthTokenUrl := Some ''https://rp.example/t''\<rparr>) \<noteq> None \<and>
   postAuthTokenUrl
     ((action_only AUTHENTICATE)
        \<lparr>getAuthChallengeUrl := Some [], postAuthTokenUrl := Some ''https://rp.example/t''\<rparr>) \<noteq> None \<and>
   new_IntentUrl
     ((action_only AUTHENTICATE)
        \<lparr>getAuthChallengeUrl := Some [], postAuthTokenUrl := Some ''https://rp.example/t''\<rparr>)
     = Inl (MissingParameterError ''Missing parameters for IntentUrl.'')"
  by (simp add: intent_url_defs action_only_def)

text \<open>
  Claim C8, amended: a field counts as present when it is set and not the empty string.
  Constructing an \<^verbatim>\<open>IntentUrl\<close> fails with \<^verbatim>\<open>MissingParameterError\<close> whenever neither
  \<^verbatim>\<open>getAuthChallengeUrl\<close> and \<^verbatim>\<open>postAuthTokenUrl\<close> are both present nor \<^verbatim>\<open>postPrepareSigningUrl\<close>
  and \<^verbatim>\<open>postFinalizeSigningUrl\<close> are both present, and succeeds (the action of a message being
  always there) whenever one of the two pairs is complete.
\<close>

theorem IntentUrl_validation:
  "(\<not> (truthy_string (getAuthChallengeUrl m) \<and> truthy_string (postAuthTokenUrl m)) \<and>
    \<not> (truthy_string (postPrepareSigningUrl m) \<and> truthy_string (postFinalizeSigningUrl m)) \<longrightarrow>
      new_IntentUrl m = Inl (MissingParameterError ''Missing parameters for IntentUrl.'')) \<and>
   ((truthy_string (getAuthChallengeUrl m) \<and> truthy_string (postAuthTokenUrl m)) \<or>
    (truthy_string (postPrepareSigningUrl m) \<and> truthy_string (postFinalizeSigningUrl m)) \<longrightarrow>
      new_IntentUrl m = Inr (IntentUrl_assign m) \<and> iu_action (IntentUrl_assign m) = Some (action m))"
  by (simp add: new_IntentUrl_cases) (simp add: IntentUrl_assign_def)

theorem IntentUrl_validation_witness:
  "\<not> (truthy_string (getAuthChallengeUrl
         ((action_only AUTHENTICATE)\<lparr>getAuthChallengeUrl := Some ''https://rp.example/c''\<rparr>)) \<and>
       truthy_string (postAuthTokenUrl
         ((action_only AUTHENTICATE)\<lparr>getAuthChallengeUrl := Some ''https://rp.example/c''\<rparr>))) \<and>
   new_IntentUrl ((action_only AUTHENTICATE)\<lparr>getAuthChallengeUrl := Some ''https://rp.example/c''\<rparr>)
     = Inl (MissingParameterError ''Missing parameters for IntentUrl.'') \<and>
   truthy_string (getAuthChallengeUrl auth_request) \<and>
   truthy_string (postAuthTokenUrl auth_request) \<and>
   new_IntentUrl auth_request = Inr (IntentUrl_assign auth_request)"
proof -
  let ?m = "(action_only AUTHENTICATE)\<lparr>getAuthChallengeUrl := Some ''https://rp.example/c''\<rparr>"
  have h1: "\<not> (truthy_string (getAuthChallengeUrl ?m) \<and> truthy_string (postAuthTokenUrl ?m)) \<and>
            \<not> (truthy_string (postPrepareSigningUrl ?m) \<and> truthy_string (postFinalizeSigningUrl ?m))"
    by (simp add: truthy_string_def action_only_def)
  have h2: "truthy_string (getAuthChallengeUrl auth_request) \<and>
            truthy_string (postAuthTokenUrl auth_request)"
    by (simp add: truthy_string_def action_only_def auth_request_def)
  show ?thesis
    using h1 h2 IntentUrl_validation [of ?m] IntentUrl_validation [of auth_request] by blast
qed

text \<open>
  Claim C9, as stated: every field value is percent-encoded.  For a request with headers
  \<^verbatim>\<open>{"X-Id": "7"}\<close> the constructor succeeds, \<open>toString\<close> appends the JSON text of the headers
  as it is, and the string differs from the one the specification describes.
\<close>

theorem toString_headers_counterexample:
  \<open>new_IntentUrl (auth_request\<lparr>headers := Some [(''X-Id'', ''7'')]\<rparr>)
     = Inr (IntentUrl_assign (auth_request\<lparr>headers := Some [(''X-Id'', ''7'')]\<rparr>)) \<and>
   toString ''web-eid-mobile://auth''
       (IntentUrl_assign (auth_request\<lparr>headers := Some [(''X-Id'', ''7'')]\<rparr>))
     = ''web-eid-mobile://auth?action="web-eid:authenticate"&getAuthChallengeUrl="https%3A%2F%2Frp.example%2Fc"&postAuthTokenUrl="https%3A%2F%2Frp.example%2Ft"&headers="{"X-Id":"7"}"'' \<and>
   spec_toString ''web-eid-mobile://auth''
       (IntentUrl_assign (auth_request\<lparr>headers := Some [(''X-Id'', ''7'')]\<rparr>))
     = ''web-eid-mobile://auth?action="web-eid:authenticate"&getAuthChallengeUrl="https%3A%2F%2Frp.example%2Fc"&postAuthTokenUrl="https%3A%2F%2Frp.example%2Ft"&headers="%7B%22X-Id%22%3A%227%22%7D"'' \<and>
   toString ''web-eid-mobile://auth''
       (IntentUrl_assign (auth_request\<lparr>headers := Some [(''X-Id'', ''7'')]\<rparr>))
     \<noteq> spec_toString ''web-eid-mobile://auth''
       (IntentUrl_assign (auth_request\<lparr>headers := Some [(''X-Id'', ''7'')]\<rparr>))\<close>
  by (simp add: intent_url_defs to_string_defs spec_toString_def spec_param_def
      auth_request_def action_only_def AUTHENTICATE_def)

text \<open>
  Claim C9, amended.  For every successfully constructed \<^verbatim>\<open>IntentUrl\<close> whose numeric fields
  \<^verbatim>\<open>userInteractionTimeout\<close> and \<^verbatim>\<open>serverRequestTimeout\<close>, when set, are integers of magnitude
  below \<open>2^53\<close>, \<open>toString\<close> returns the
  configured base followed by \<^verbatim>\<open>?action="<action>"\<close> and then, in this order and only for the
  fields of the message that are set and neither empty nor zero, \<^verbatim>\<open>&<field>="<value>"\<close>, the
  value between literal quote characters: percent-encoded for \<^verbatim>\<open>getAuthChallengeUrl\<close>,
  \<^verbatim>\<open>postAuthTokenUrl\<close>, \<^verbatim>\<open>postPrepareSigningUrl\<close>, \<^verbatim>\<open>postFinalizeSigningUrl\<close>, \<^verbatim>\<open>applicationName\<close>
  and \<^verbatim>\<open>actionDescription\<close>; the JSON text of \<^verbatim>\<open>headers\<close> (appended whenever headers are set),
  the digits of \<^verbatim>\<open>userInteractionTimeout\<close> and \<^verbatim>\<open>serverRequestTimeout\<close>, and \<^verbatim>\<open>lang\<close> as they are,
  not percent-encoded.
\<close>

theorem toString_format:
  assumes "new_IntentUrl m = Inr u"
    and "safe_integer (userInteractionTimeout m)" and "safe_integer (serverRequestTimeout m)"
  shows \<open>toString base u =
     base @ ''?action="'' @ action m @ ''"''
       @ encoded_param ''getAuthChallengeUrl'' (getAuthChallengeUrl m)
       @ encoded_param ''postAuthTokenUrl'' (postAuthTokenUrl m)
       @ encoded_param ''postPrepareSigningUrl'' (postPrepareSigningUrl m)
       @ encoded_param ''postFinalizeSigningUrl'' (postFinalizeSigningUrl m)
       @ encoded_param ''applicationName'' (applicationName m)
       @ encoded_param ''actionDescription'' (actionDescription m)
       @ (case headers m of None \<Rightarrow> [] | Some h \<Rightarrow> ''&headers="'' @ JSON_stringify h @ ''"'')
       @ number_param ''userInteractionTimeout'' (userInteractionTimeout m)
       @ number_param ''serverRequestTimeout'' (serverRequestTimeout m)
       @ raw_param ''lang'' (lang m)
     \<and> prefix (base @ ''?action="'' @ action m @ ''"'') (toString base u)\<close>
proof -
  have u: "u = IntentUrl_assign m"
    using assms(1) by (simp add: new_IntentUrl_cases split: if_splits)
  have enc: "encoded_param n (copy_string v) = encoded_param n v" for n v
    by (simp add: encoded_param_def copy_string_def truthy_string_def split: option.splits)
  have raw: "raw_param n (copy_string v) = raw_param n v" for n v
    by (simp add: raw_param_def copy_string_def truthy_string_def split: option.splits)
  have num: "number_param n (copy_number v) = number_param n v" for n v
    by (simp add: number_param_def copy_number_def truthy_number_def split: option.splits)
  have eq: \<open>toString base u =
     base @ ''?action="'' @ action m @ ''"''
       @ encoded_param ''getAuthChallengeUrl'' (getAuthChallengeUrl m)
       @ encoded_param ''postAuthTokenUrl'' (postAuthTokenUrl m)
       @ encoded_param ''postPrepareSigningUrl'' (postPrepareSigningUrl m)
       @ encoded_param ''postFinalizeSigningUrl'' (postFinalizeSigningUrl m)
       @ encoded_param ''applicationName'' (applicationName m)
       @ encoded_param ''actionDescription'' (actionDescription m)
       @ (case headers m of None \<Rightarrow> [] | Some h \<Rightarrow> ''&headers="'' @ JSON_stringify h @ ''"'')
       @ number_param ''userInteractionTimeout'' (userInteractionTimeout m)
       @ number_param ''serverRequestTimeout'' (serverRequestTimeout m)
       @ raw_param ''lang'' (lang m)\<close>
    unfolding u toString_def
    by (simp add: IntentUrl_assign_def enc raw num headers_param_def quoted_param_def
        split: option.splits)
  have pre: \<open>prefix (base @ ''?action="'' @ action m @ ''"'') (toString base u)\<close>
    unfolding eq by (simp only: prefix_def append_assoc) blast
  from eq pre show ?thesis by blast
qed

theorem toString_format_witness:
  \<open>new_IntentUrl (auth_request\<lparr>userInteractionTimeout := Some 120000, lang := Some ''et''\<rparr>)
     = Inr (IntentUrl_assign
              (auth_request\<lparr>userInteractionTimeout := Some 120000, lang := Some ''et''\<rparr>)) \<and>
   safe_integer (userInteractionTimeout
     (auth_request\<lparr>userInteractionTimeout := Some 120000, lang := Some ''et''\<rparr>)) \<and>
   safe_integer (serverRequestTimeout
     (auth_request\<lparr>userInteractionTimeout := Some 120000, lang := Some ''et''\<rparr>)) \<and>
   toString ''web-eid-mobile://auth''
       (IntentUrl_assign (auth_request\<lparr>userInteractionTimeout := Some 120000, lang := Some ''et''\<rparr>))
     = ''web-eid-mobile://auth?action="web-eid:authenticate"&getAuthChallengeUrl="https%3A%2F%2Frp.example%2Fc"&postAuthTokenUrl="https%3A%2F%2Frp.example%2Ft"&userInteractionTimeout="120000"&lang="et"''\<close>
proof -
  let ?m = "auth_request\<lparr>userInteractionTimeout := Some 120000, lang := Some ''et''\<rparr>"
  have h: "new_IntentUrl ?m = Inr (IntentUrl_assign ?m)"
    by (simp add: intent_url_defs auth_request_def action_only_def)
  have b1: "safe_integer (userInteractionTimeout ?m)"
    by (simp add: safe_integer_def)
  have b2: "safe_integer (serverRequestTimeout ?m)"
    by (simp add: safe_integer_def auth_request_def action_only_def)
  have \<open>toString ''web-eid-mobile://auth'' (IntentUrl_assign ?m)
     = ''web-eid-mobile://auth?action="web-eid:authenticate"&getAuthChallengeUrl="https%3A%2F%2Frp.example%2Fc"&postAuthTokenUrl="https%3A%2F%2Frp.example%2Ft"&userInteractionTimeout="120000"&lang="et"''\<close>
    using toString_format [OF h b1 b2, of "''web-eid-mobile://auth''"]
    by (simp add: auth_request_def action_only_def AUTHENTICATE_def encoded_param_def
        raw_param_def number_param_def quoted_param_def encodeURIComponent_def
        uri_unreserved_def percent_byte_def number_toString_def nat_toString.simps)
  with h b1 b2 show ?thesis by blast
qed

subsection \<open>Polling\<close>

text \<open>
  Claim C7, as stated, with the URL present when it is not \<^verbatim>\<open>undefined\<close>: a URL that is present
  and does not start with \<^verbatim>\<open>https://\<close> would fail with \<^verbatim>\<open>ProtocolInsecureError\<close>.  The empty
  string is such a URL, and \<open>pollForLoginSuccess\<close> fails with \<^verbatim>\<open>MissingParameterError\<close> for it:
  the test \<^verbatim>\<open>if (message.getAuthSuccessUrl)\<close> takes the empty string for a missing one.
\<close>

theorem pollForLoginSuccess_empty_url_counterexample:
  "getAuthSuccessUrl (auth_request\<lparr>getAuthSuccessUrl := Some []\<rparr>) = Some [] \<and>
   \<not> prefix ''https://'' [] \<and>
   pollForLoginSuccess desktop (auth_request\<lparr>getAuthSuccessUrl := Some []\<rparr>) 30000
     = Inl (MissingParameterError
              ''getAuthSuccessUrl missing for Android auth app authentication option.'')"
  by (simp add: pollForLoginSuccess_def truthy_string_def auth_request_def action_only_def)

text \<open>
  Claim C7, amended.  \<open>pollForLoginSuccess\<close> fails with \<^verbatim>\<open>ProtocolInsecureError\<close> for every
  message whose \<^verbatim>\<open>getAuthSuccessUrl\<close> is set, not empty, and does not start with \<^verbatim>\<open>https://\<close>,
  and with \<^verbatim>\<open>MissingParameterError\<close> for every message whose \<^verbatim>\<open>getAuthSuccessUrl\<close> is absent or
  the empty string; whenever it fails, no request is issued: dispatching the message adds
  nothing to the outstanding poll requests.
\<close>

theorem pollForLoginSuccess_preconditions:
  "(getAuthSuccessUrl m = Some u \<and> u \<noteq> [] \<and> \<not> prefix ''https://'' u \<longrightarrow>
      pollForLoginSuccess e m timeout
        = Inl (ProtocolInsecureError (''HTTPS required for getAuthSuccessUrl '' @ u))) \<and>
   (getAuthSuccessUrl m = None \<or> getAuthSuccessUrl m = Some [] \<longrightarrow>
      pollForLoginSuccess e m timeout
        = Inl (MissingParameterError
                 ''getAuthSuccessUrl missing for Android auth app authentication option.'')) \<and>
   ((\<exists>x. pollForLoginSuccess e m timeout = Inl x) \<longrightarrow>
      requests (snd (publishMessage e m timeout s)) = requests s)"
proof -
  have a: "getAuthSuccessUrl m = Some u \<and> u \<noteq> [] \<and> \<not> prefix ''https://'' u \<longrightarrow>
      pollForLoginSuccess e m timeout
        = Inl (ProtocolInsecureError (''HTTPS required for getAuthSuccessUrl '' @ u))"
    by (simp add: pollForLoginSuccess_def truthy_string_def)
  have b: "getAuthSuccessUrl m = None \<or> getAuthSuccessUrl m = Some [] \<longrightarrow>
      pollForLoginSuccess e m timeout
        = Inl (MissingParameterError
                 ''getAuthSuccessUrl missing for Android auth app authentication option.'')"
    by (auto simp: pollForLoginSuccess_def truthy_string_def)
  have c: "(\<exists>x. pollForLoginSuccess e m timeout = Inl x) \<longrightarrow>
      requests (snd (publishMessage e m timeout s)) = requests s"
    by (auto simp: publishMessage_def launchAuthApp_def displayQRCode_def postMessage_def
        split: sum.splits option.splits prod.splits if_splits)
  from a b c show ?thesis by blast
qed

theorem pollForLoginSuccess_preconditions_witness:
  "getAuthSuccessUrl (auth_request\<lparr>getAuthSuccessUrl := Some ''http://rp.example/s''\<rparr>)
     = Some ''http://rp.example/s'' \<and>
   \<not> prefix ''https://'' ''http://rp.example/s'' \<and>
   pollForLoginSuccess desktop (auth_request\<lparr>getAuthSuccessUrl := Some ''http://rp.example/s''\<rparr>) 30000
     = Inl (ProtocolInsecureError ''HTTPS required for getAuthSuccessUrl http://rp.example/s'') \<and>
   requests (snd (publishMessage desktop
       (auth_request\<lparr>getAuthSuccessUrl := Some ''http://rp.example/s''\<rparr>) 30000 init)) = [] \<and>
   getAuthSuccessUrl (auth_request\<lparr>getAuthSuccessUrl := None\<rparr>) = None \<and>
   pollForLoginSuccess desktop (auth_request\<lparr>getAuthSuccessUrl := None\<rparr>) 30000
     = Inl (MissingParameterError
              ''getAuthSuccessUrl missing for Android auth app authentication option.'')"
proof -
  let ?m = "auth_request\<lparr>getAuthSuccessUrl := Some ''http://rp.example/s''\<rparr>"
  let ?n = "auth_request\<lparr>getAuthSuccessUrl := None\<rparr>"
  have h1: "getAuthSuccessUrl ?m = Some ''http://rp.example/s'' \<and>
            ''http://rp.example/s'' \<noteq> [] \<and> \<not> prefix ''https://'' ''http://rp.example/s''"
    by (simp add: auth_request_def action_only_def)
  have h2: "getAuthSuccessUrl ?n = None"
    by (simp add: auth_request_def action_only_def)
  have h3: "requests init = []"
    by (simp add: init_def)
  show ?thesis
    using h1 h2 h3
      pollForLoginSuccess_preconditions [of ?m "''http://rp.example/s''" desktop 30000 init]
      pollForLoginSuccess_preconditions [of ?n u desktop 30000 init]
    by simp
qed

end
